theory Spec2Isabelle
  imports Main "HOL-Library.Multiset" "HOL-Library.AList"
begin

section \<open>Text\<close>

text \<open>
  Python text is modelled as \<^typ>\<open>string\<close>; a character stands for the code point of
  the same number, so the model covers the code points below 256. The three helpers
  below are Python's \<^verbatim>\<open>str.isspace\<close>, \<^verbatim>\<open>str.lower\<close> and \<^verbatim>\<open>str.strip()\<close> on that range.
\<close>

definition isspace :: "char \<Rightarrow> bool" where
  "isspace c =
     (let n = (of_char c :: nat)
      in (9 \<le> n \<and> n \<le> 13) \<or> (28 \<le> n \<and> n \<le> 32) \<or> n = 133 \<or> n = 160)"

definition is_upper :: "char \<Rightarrow> bool" where
  "is_upper c =
     (let n = (of_char c :: nat)
      in (65 \<le> n \<and> n \<le> 90) \<or> (192 \<le> n \<and> n \<le> 222 \<and> n \<noteq> 215))"

definition lower_char :: "char \<Rightarrow> char" where
  "lower_char c = (if is_upper c then char_of ((of_char c :: nat) + 32) else c)"

definition lower :: "string \<Rightarrow> string" where
  "lower s = map lower_char s"

definition strip :: "string \<Rightarrow> string" where
  "strip s = rev (dropWhile isspace (rev (dropWhile isspace s)))"

text \<open>
  The word characters of the regular expression class \<^verbatim>\<open>\w\<close> (letters, digits and
  the underscore) on the same range; a punctuation character is one that is neither a word
  character nor white space, the class \<^verbatim>\<open>[^\w\s]\<close>.
\<close>

definition is_word :: "char \<Rightarrow> bool" where
  "is_word c =
     (let n = (of_char c :: nat)
      in (48 \<le> n \<and> n \<le> 57) \<or> (65 \<le> n \<and> n \<le> 90) \<or> n = 95 \<or> (97 \<le> n \<and> n \<le> 122)
         \<or> n = 170 \<or> n = 178 \<or> n = 179 \<or> n = 181 \<or> n = 185 \<or> n = 186
         \<or> (188 \<le> n \<and> n \<le> 190) \<or> (192 \<le> n \<and> n \<le> 214) \<or> (216 \<le> n \<and> n \<le> 246)
         \<or> 248 \<le> n)"

definition is_punct :: "char \<Rightarrow> bool" where
  "is_punct c = (\<not> is_word c \<and> \<not> isspace c)"

text \<open>\<^verbatim>\<open>str(n)\<close> for an integer: its decimal digits, with a minus sign below zero.\<close>

fun str_nat :: "nat \<Rightarrow> string" where
  "str_nat n =
     (if n < 10 then [char_of (48 + n)]
      else str_nat (n div 10) @ [char_of (48 + n mod 10)])"

definition str_int :: "int \<Rightarrow> string" where
  "str_int i = (if i < 0 then CHR ''-'' # str_nat (nat (- i)) else str_nat (nat i))"

section \<open>Cells and grids\<close>

text \<open>
  A decoded cell: the empty value \<^verbatim>\<open>None\<close>, a boolean, an integer or a text.
  Floating-point and date cells are left out of the model. A row is a list of cells and a
  grid a list of rows, which may differ in length.
\<close>

datatype cell = Absent | Boolean bool | Number int | Text string

type_synonym row = "cell list"
type_synonym grid = "row list"

text \<open>Python's truth value of a cell (\<^verbatim>\<open>if value:\<close>).\<close>

fun truthy :: "cell \<Rightarrow> bool" where
  "truthy Absent = False"
| "truthy (Boolean b) = b"
| "truthy (Number n) = (n \<noteq> 0)"
| "truthy (Text s) = (s \<noteq> [])"

text \<open>\<^verbatim>\<open>str(value)\<close>.\<close>

fun str_cell :: "cell \<Rightarrow> string" where
  "str_cell Absent = ''None''"
| "str_cell (Boolean b) = (if b then ''True'' else ''False'')"
| "str_cell (Number n) = str_int n"
| "str_cell (Text s) = s"

text \<open>
  \<^verbatim>\<open>expected_keywords: list[str] | None\<close>; the code tests it with \<^verbatim>\<open>if expected_keywords:\<close>,
  which holds for a list that is not empty.
\<close>

fun keywords_given :: "string list option \<Rightarrow> bool" where
  "keywords_given None = False"
| "keywords_given (Some ks) = (ks \<noteq> [])"

fun keywords_of :: "string list option \<Rightarrow> string list" where
  "keywords_of None = []"
| "keywords_of (Some ks) = ks"

section \<open>The header locator of excel/find\_header\_row.py\<close>

text \<open>
  \<^verbatim>\<open>row_values = [str(value).strip().lower() for value in row if value]\<close> and
  \<^verbatim>\<open>all(keyword.lower() in row_values for keyword in expected_keywords)\<close>.
\<close>

definition row_values_xl :: "row \<Rightarrow> string list" where
  "row_values_xl r = map (\<lambda>v. lower (strip (str_cell v))) (filter truthy r)"

definition all_keywords_xl :: "string list \<Rightarrow> row \<Rightarrow> bool" where
  "all_keywords_xl ks r = list_all (\<lambda>k. lower k \<in> set (row_values_xl r)) ks"

text \<open>The inner loop: count the leading cells that are true, stop at the first other one.\<close>

fun consecutive_xl :: "row \<Rightarrow> nat" where
  "consecutive_xl [] = 0"
| "consecutive_xl (v # vs) = (if truthy v then Suc (consecutive_xl vs) else 0)"

text \<open>
  The outer loop over \<^verbatim>\<open>enumerate(ws.iter_rows())\<close>, with the loop variables
  \<^verbatim>\<open>max_consecutive\<close> and \<^verbatim>\<open>header_row\<close> passed along; both ways out of the loop
  (\<^verbatim>\<open>i > max_rows\<close> and the keyword match) return the current \<^verbatim>\<open>header_row\<close>.
\<close>

fun scan_xl :: "int \<Rightarrow> string list option \<Rightarrow> nat \<Rightarrow> grid \<Rightarrow> nat \<Rightarrow> nat \<Rightarrow> nat" where
  "scan_xl max_rows kws i [] max_consecutive header_row = header_row"
| "scan_xl max_rows kws i (r # rows) max_consecutive header_row =
     (if int i > max_rows then header_row
      else if consecutive_xl r > max_consecutive
        then (if keywords_given kws \<and> all_keywords_xl (keywords_of kws) r then i
              else scan_xl max_rows kws (Suc i) rows (consecutive_xl r) i)
        else scan_xl max_rows kws (Suc i) rows max_consecutive header_row)"

definition locate_xl :: "grid \<Rightarrow> int \<Rightarrow> string list option \<Rightarrow> nat" where
  "locate_xl rows max_rows kws = scan_xl max_rows kws 0 rows 0 0"

text \<open>
  The whole function: the check of the two selectors, the choice of the sheet and the
  scan. A workbook is the list of its sheets, each with its name; looking a sheet up by
  an index or a name that the workbook does not have fails.
\<close>

datatype error =
    BothSelectors
  | WorksheetNotFound
  | AmbiguousMapping string string string
  | MultipleColumns string

type_synonym workbook = "(string \<times> grid) list"

definition get_sheet_by_index :: "workbook \<Rightarrow> nat \<Rightarrow> error + grid" where
  "get_sheet_by_index wb n = (if n < length wb then Inr (snd (wb ! n)) else Inl WorksheetNotFound)"

definition get_sheet_by_name :: "workbook \<Rightarrow> string \<Rightarrow> error + grid" where
  "get_sheet_by_name wb name = (case map_of wb name of Some ws \<Rightarrow> Inr ws | None \<Rightarrow> Inl WorksheetNotFound)"

text \<open>The truth values of \<^verbatim>\<open>sheet_id: int | None\<close> and \<^verbatim>\<open>sheet_name: str | None\<close>.\<close>

fun id_given :: "int option \<Rightarrow> bool" where
  "id_given None = False"
| "id_given (Some n) = (n \<noteq> 0)"

fun name_given :: "string option \<Rightarrow> bool" where
  "name_given None = False"
| "name_given (Some s) = (s \<noteq> [])"

fun name_of :: "string option \<Rightarrow> string" where
  "name_of None = []"
| "name_of (Some s) = s"

definition find_header_row_xl ::
  "workbook \<Rightarrow> int option \<Rightarrow> string option \<Rightarrow> int \<Rightarrow> string list option \<Rightarrow> error + nat" where
  "find_header_row_xl wb sheet_id sheet_name max_rows kws =
     (if id_given sheet_id \<and> name_given sheet_name then Inl BothSelectors
      else
        case (if id_given sheet_id then get_sheet_by_index wb 0
              else if name_given sheet_name then get_sheet_by_name wb (name_of sheet_name)
              else get_sheet_by_index wb 0) of
          Inl e \<Rightarrow> Inl e
        | Inr ws \<Rightarrow> Inr (locate_xl ws max_rows kws))"

section \<open>The header locator of df/read\_excel.py\<close>

text \<open>
  The sheet is chosen and decoded by polars' \<^verbatim>\<open>read_excel\<close>; the model starts from the
  rows of the frame it returns. The frame is cut by polars' \<^verbatim>\<open>head(max_rows)\<close>: the first
  \<^verbatim>\<open>max_rows\<close> rows, and for a negative \<^verbatim>\<open>max_rows\<close> all rows but the last \<^verbatim>\<open>-max_rows\<close>.
\<close>

definition head_df :: "int \<Rightarrow> grid \<Rightarrow> grid" where
  "head_df n g = (if 0 \<le> n then take (nat n) g else take (length g - nat (- n)) g)"

text \<open>\<^verbatim>\<open>value is not None and str(value).strip() != ""\<close>.\<close>

definition nonblank_df :: "cell \<Rightarrow> bool" where
  "nonblank_df v = (v \<noteq> Absent \<and> strip (str_cell v) \<noteq> [])"

definition row_values_df :: "row \<Rightarrow> string list" where
  "row_values_df r = map (\<lambda>v. lower (strip (str_cell v))) (filter (\<lambda>v. v \<noteq> Absent) r)"

definition all_keywords_df :: "string list \<Rightarrow> row \<Rightarrow> bool" where
  "all_keywords_df ks r = list_all (\<lambda>k. lower k \<in> set (row_values_df r)) ks"

fun consecutive_df :: "row \<Rightarrow> nat" where
  "consecutive_df [] = 0"
| "consecutive_df (v # vs) = (if nonblank_df v then Suc (consecutive_df vs) else 0)"

fun scan_df :: "string list option \<Rightarrow> nat \<Rightarrow> grid \<Rightarrow> nat \<Rightarrow> nat \<Rightarrow> nat" where
  "scan_df kws i [] max_consecutive header_row_index = header_row_index"
| "scan_df kws i (r # rows) max_consecutive header_row_index =
     (if consecutive_df r > max_consecutive
        then (if keywords_given kws \<and> all_keywords_df (keywords_of kws) r then i
              else scan_df kws (Suc i) rows (consecutive_df r) i)
        else scan_df kws (Suc i) rows max_consecutive header_row_index)"

definition locate_df :: "grid \<Rightarrow> int \<Rightarrow> string list option \<Rightarrow> nat" where
  "locate_df rows max_rows kws = scan_df kws 0 (head_df max_rows rows) 0 0"

section \<open>The scan, written once\<close>

text \<open>
  Both loops are the same scan over the rows they reach, with their own count of leading
  cells and their own keyword test; the theorems below are proved on this form.
\<close>

fun scan :: "(row \<Rightarrow> nat) \<Rightarrow> (row \<Rightarrow> bool) \<Rightarrow> nat \<Rightarrow> grid \<Rightarrow> nat \<Rightarrow> nat \<Rightarrow> nat" where
  "scan cnt stop i [] mc hr = hr"
| "scan cnt stop i (r # rows) mc hr =
     (if cnt r > mc
        then (if stop r then i else scan cnt stop (Suc i) rows (cnt r) i)
        else scan cnt stop (Suc i) rows mc hr)"

definition stop_xl :: "string list option \<Rightarrow> row \<Rightarrow> bool" where
  "stop_xl kws r = (keywords_given kws \<and> all_keywords_xl (keywords_of kws) r)"

definition stop_df :: "string list option \<Rightarrow> row \<Rightarrow> bool" where
  "stop_df kws r = (keywords_given kws \<and> all_keywords_df (keywords_of kws) r)"

text \<open>The rows the loop of the excel variant reaches before \<^verbatim>\<open>i > max_rows\<close>.\<close>

definition scanned_xl :: "int \<Rightarrow> grid \<Rightarrow> grid" where
  "scanned_xl max_rows g = take (nat (max_rows + 1)) g"

section \<open>The properties of the specification\<close>

text \<open>
  The running maximum before row \<open>i\<close> of the scanned rows \<open>w\<close> is the largest count of
  an earlier row, and 0 when there is none. Row \<open>i\<close> improves on it when its own count
  is strictly larger.
\<close>

definition running_max :: "(row \<Rightarrow> nat) \<Rightarrow> grid \<Rightarrow> nat \<Rightarrow> nat" where
  "running_max cnt w i = fold max (map cnt (take i w)) 0"

definition improves :: "(row \<Rightarrow> nat) \<Rightarrow> grid \<Rightarrow> nat \<Rightarrow> bool" where
  "improves cnt w i = (running_max cnt w i < cnt (w ! i))"

text \<open>Row \<open>k\<close> is the only scanned row with the largest count.\<close>

definition only_widest :: "(row \<Rightarrow> nat) \<Rightarrow> grid \<Rightarrow> nat \<Rightarrow> bool" where
  "only_widest cnt w k =
     (k < length w \<and> list_all (\<lambda>j. j = k \<or> cnt (w ! j) < cnt (w ! k)) [0..<length w])"

text \<open>Row \<open>k\<close> is the first scanned row with the largest count.\<close>

definition first_widest :: "(row \<Rightarrow> nat) \<Rightarrow> grid \<Rightarrow> nat \<Rightarrow> bool" where
  "first_widest cnt w k =
     (k < length w \<and> list_all (\<lambda>r. cnt r \<le> cnt (w ! k)) w
      \<and> list_all (\<lambda>r. cnt r < cnt (w ! k)) (take k w))"

text \<open>
  Row \<open>i\<close> is the first scanned row that both holds every keyword and improves on the
  running maximum; and no scanned row does both.
\<close>

definition keyword_improvement :: "(row \<Rightarrow> nat) \<Rightarrow> (row \<Rightarrow> bool) \<Rightarrow> grid \<Rightarrow> nat \<Rightarrow> bool" where
  "keyword_improvement cnt kw w j = (kw (w ! j) \<and> improves cnt w j)"

definition first_keyword_improvement ::
  "(row \<Rightarrow> nat) \<Rightarrow> (row \<Rightarrow> bool) \<Rightarrow> grid \<Rightarrow> nat \<Rightarrow> bool" where
  "first_keyword_improvement cnt kw w i =
     (i < length w \<and> keyword_improvement cnt kw w i
      \<and> list_all (\<lambda>j. \<not> keyword_improvement cnt kw w j) [0..<i])"

definition no_keyword_improvement :: "(row \<Rightarrow> nat) \<Rightarrow> (row \<Rightarrow> bool) \<Rightarrow> grid \<Rightarrow> bool" where
  "no_keyword_improvement cnt kw w =
     list_all (\<lambda>j. \<not> keyword_improvement cnt kw w j) [0..<length w]"

section \<open>The name normalizer\<close>

text \<open>
  Modelled from the spec: \<^verbatim>\<open>rpatoolkit.utils.strip_punctuation\<close>, which df/utils.py and
  excel/read\_excel\_sheet.py import, is not among the sources. The specification (4.2, 4.3)
  has it replace every maximal run of punctuation characters by one instance of the
  replacement, keep word characters and inner white space as they are, and trim the white
  space at both ends of the result. Its argument is a text by its type, so the type error
  for other arguments has no counterpart here.
\<close>

fun sub_punct :: "string \<Rightarrow> bool \<Rightarrow> string \<Rightarrow> string" where
  "sub_punct replacement in_run [] = []"
| "sub_punct replacement in_run (c # cs) =
     (if is_punct c
        then (if in_run then sub_punct replacement True cs
              else replacement @ sub_punct replacement True cs)
        else c # sub_punct replacement False cs)"

definition strip_punctuation :: "string \<Rightarrow> string \<Rightarrow> string" where
  "strip_punctuation s replacement = strip (sub_punct replacement False s)"

text \<open>
  Modelled from the spec: the contract \<^verbatim>\<open>normalize(text, {fold_case, strip_punctuation,
  replacement})\<close> of 4.3. The two steps are taken in the order in which
  \<^verbatim>\<open>normalize_columns\<close> (df/utils.py, lines 67 to 72) applies them to a column name.
\<close>

definition normalize_name :: "bool \<Rightarrow> bool \<Rightarrow> string \<Rightarrow> string \<Rightarrow> string" where
  "normalize_name fold_case strip_punct replacement s =
     (let a = (if strip_punct then strip_punctuation (strip s) replacement else s)
      in if fold_case then lower (strip a) else a)"

definition no_punct :: "string \<Rightarrow> bool" where
  "no_punct s = list_all (\<lambda>c. \<not> is_punct c) s"

definition all_punct :: "string \<Rightarrow> bool" where
  "all_punct s = list_all is_punct s"

text \<open>
  The texts above hold code points below 256 only, where \<^verbatim>\<open>str.lower\<close> works character by
  character and keeps word characters, punctuation and white space apart. Python's texts
  go beyond that range, so here is the same normalizer over any alphabet, given its white
  space, its punctuation and its lower-casing of a text.
\<close>

fun sub_punct_on :: "('c \<Rightarrow> bool) \<Rightarrow> 'c list \<Rightarrow> bool \<Rightarrow> 'c list \<Rightarrow> 'c list" where
  "sub_punct_on pu replacement in_run [] = []"
| "sub_punct_on pu replacement in_run (c # cs) =
     (if pu c
        then (if in_run then sub_punct_on pu replacement True cs
              else replacement @ sub_punct_on pu replacement True cs)
        else c # sub_punct_on pu replacement False cs)"

definition strip_on :: "('c \<Rightarrow> bool) \<Rightarrow> 'c list \<Rightarrow> 'c list" where
  "strip_on sp s = rev (dropWhile sp (rev (dropWhile sp s)))"

definition normalize_on ::
  "('c \<Rightarrow> bool) \<Rightarrow> ('c \<Rightarrow> bool) \<Rightarrow> ('c list \<Rightarrow> 'c list) \<Rightarrow> bool \<Rightarrow> bool \<Rightarrow> 'c list \<Rightarrow> 'c list
     \<Rightarrow> 'c list" where
  "normalize_on sp pu lo fold_case strip_punct replacement s =
     (let a = (if strip_punct
               then strip_on sp (sub_punct_on pu replacement False (strip_on sp s))
               else s)
      in if fold_case then lo (strip_on sp a) else a)"

text \<open>
  Python on the three code points U+0069 (the letter i, 105), U+0130 (the capital letter I
  with a dot above, 304) and U+0307 (the combining dot above, 775), written as numbers:
  none of them is white space, only U+0307 is matched by \<^verbatim>\<open>[^\w\s]\<close>, and
  \<^verbatim>\<open>str.lower\<close> turns U+0130 into U+0069 followed by U+0307 and keeps the other two.
\<close>

definition dotted_space :: "nat \<Rightarrow> bool" where
  "dotted_space n = False"

definition dotted_punct :: "nat \<Rightarrow> bool" where
  "dotted_punct n = (n = 775)"

definition dotted_lower :: "nat list \<Rightarrow> nat list" where
  "dotted_lower s = concat (map (\<lambda>n. if n = 304 then [105, 775] else [n]) s)"

text \<open>A text with no white space at either end.\<close>

definition trimmed :: "string \<Rightarrow> bool" where
  "trimmed s = (s = [] \<or> (\<not> isspace (hd s) \<and> \<not> isspace (last s)))"

section \<open>The column reconciler of df/utils.py\<close>

text \<open>
  A mapping is a dictionary from the final column name to \<^verbatim>\<open>list[str] | str\<close>, kept as the
  list of its items in insertion order. The reverse mapping and the rename plan are
  dictionaries as well: the first is only looked up and is a map, the second is the
  result and keeps its insertion order.
\<close>

datatype aliases = Single string | Several "string list"

fun possible_names :: "aliases \<Rightarrow> string list" where
  "possible_names (Single s) = [s]"
| "possible_names (Several xs) = xs"

type_synonym column_mapping = "(string \<times> aliases) list"

text \<open>The inner loop over \<^verbatim>\<open>possible_names\<close> and the outer loop over \<^verbatim>\<open>mapping.items()\<close>.\<close>

fun add_names :: "string \<Rightarrow> string list \<Rightarrow> (string \<rightharpoonup> string) \<Rightarrow> error + (string \<rightharpoonup> string)" where
  "add_names final_name [] reverse_mapping = Inr reverse_mapping"
| "add_names final_name (name # names) reverse_mapping =
     (case reverse_mapping (lower name) of
        Some other \<Rightarrow> Inl (AmbiguousMapping name other final_name)
      | None \<Rightarrow> add_names final_name names (reverse_mapping(lower name \<mapsto> final_name)))"

fun build_reverse :: "column_mapping \<Rightarrow> (string \<rightharpoonup> string) \<Rightarrow> error + (string \<rightharpoonup> string)" where
  "build_reverse [] reverse_mapping = Inr reverse_mapping"
| "build_reverse ((final_name, possible) # rest) reverse_mapping =
     (case add_names final_name (possible_names possible) reverse_mapping of
        Inl e \<Rightarrow> Inl e
      | Inr reverse_mapping' \<Rightarrow> build_reverse rest reverse_mapping')"

text \<open>The two passes over \<^verbatim>\<open>normalized_cols\<close>; the replacement is the default, the empty text.\<close>

definition normalized_cols :: "bool \<Rightarrow> bool \<Rightarrow> string list \<Rightarrow> string list" where
  "normalized_cols remove_punctuation lowercase_columns original_cols =
     (let n1 = (if remove_punctuation
                then map (\<lambda>c. strip_punctuation (strip c) []) original_cols
                else original_cols)
      in if lowercase_columns then map (\<lambda>c. lower (strip c)) n1 else n1)"

text \<open>
  The loop over \<^verbatim>\<open>zip(original_cols, normalized_cols)\<close> with its two variables
  \<^verbatim>\<open>rename_dict\<close> and \<^verbatim>\<open>used_final\<close>.
\<close>

fun rename_loop ::
  "(string \<rightharpoonup> string) \<Rightarrow> (string \<times> string) list \<Rightarrow> (string \<times> string) list \<Rightarrow> string set
     \<Rightarrow> error + (string \<times> string) list" where
  "rename_loop reverse_mapping [] rename_dict used_final = Inr rename_dict"
| "rename_loop reverse_mapping ((orig_col, norm_col) # rest) rename_dict used_final =
     (case reverse_mapping (lower (strip norm_col)) of
        None \<Rightarrow> rename_loop reverse_mapping rest rename_dict used_final
      | Some final_name \<Rightarrow>
          if final_name \<in> used_final then Inl (MultipleColumns final_name)
          else rename_loop reverse_mapping rest
                 (if orig_col \<noteq> final_name then AList.update orig_col final_name rename_dict
                  else rename_dict)
                 (insert final_name used_final))"

text \<open>
  The function up to the call of polars' \<^verbatim>\<open>rename\<close>: it fails with one of the two
  \<^verbatim>\<open>ValueError\<close>s or gives the rename plan, which \<open>renamed\<close> applies to the column names.
\<close>

definition normalize_columns ::
  "string list \<Rightarrow> column_mapping \<Rightarrow> bool \<Rightarrow> bool \<Rightarrow> error + (string \<times> string) list" where
  "normalize_columns original_cols mapping remove_punctuation lowercase_columns =
     (case build_reverse mapping Map.empty of
        Inl e \<Rightarrow> Inl e
      | Inr reverse_mapping \<Rightarrow>
          rename_loop reverse_mapping
            (zip original_cols (normalized_cols remove_punctuation lowercase_columns original_cols))
            [] {})"

definition renamed :: "(string \<times> string) list \<Rightarrow> string list \<Rightarrow> string list" where
  "renamed rename_dict cols =
     map (\<lambda>c. case map_of rename_dict c of Some final_name \<Rightarrow> final_name | None \<Rightarrow> c) cols"

section \<open>The properties of the specification for the reconciler\<close>

text \<open>The result is the error of an ambiguous mapping.\<close>

fun is_ambiguous :: "error + 'a \<Rightarrow> bool" where
  "is_ambiguous (Inl (AmbiguousMapping name other final_name)) = True"
| "is_ambiguous r = False"

text \<open>
  The case-folded aliases of one entry and of the whole mapping, in the order of the
  mapping.
\<close>

definition alias_keys :: "aliases \<Rightarrow> string list" where
  "alias_keys v = map lower (possible_names v)"

definition all_alias_keys :: "column_mapping \<Rightarrow> string list" where
  "all_alias_keys m = concat (map (\<lambda>e. alias_keys (snd e)) m)"

text \<open>
  The reverse mapping of a mapping whose case-folded aliases are all different: the
  canonical name of the first entry that lists the key.
\<close>

fun lookup_alias :: "column_mapping \<Rightarrow> string \<Rightarrow> string option" where
  "lookup_alias [] k = None"
| "lookup_alias (e # rest) k =
     (if k \<in> set (alias_keys (snd e)) then Some (fst e) else lookup_alias rest k)"

text \<open>Two different canonical names of the mapping claim the same case-folded alias.\<close>

definition two_names_claim_alias :: "column_mapping \<Rightarrow> bool" where
  "two_names_claim_alias m =
     list_ex (\<lambda>e1. list_ex (\<lambda>e2. fst e1 \<noteq> fst e2
        \<and> list_ex (\<lambda>k. k \<in> set (alias_keys (snd e2))) (alias_keys (snd e1))) m) m"

text \<open>
  The text under which an observed column is looked up (lines 67 to 72 and 78), and the
  canonical names it resolves to in a mapping.
\<close>

definition column_key :: "bool \<Rightarrow> bool \<Rightarrow> string \<Rightarrow> string" where
  "column_key remove_punctuation lowercase_columns c =
     lower (strip (normalize_name lowercase_columns remove_punctuation [] c))"

definition resolves :: "column_mapping \<Rightarrow> bool \<Rightarrow> bool \<Rightarrow> string \<Rightarrow> string \<Rightarrow> bool" where
  "resolves m remove_punctuation lowercase_columns c final_name =
     list_ex (\<lambda>e. fst e = final_name
        \<and> column_key remove_punctuation lowercase_columns c \<in> set (alias_keys (snd e))) m"

text \<open>No two of the first \<open>j\<close> observed columns resolve to the same canonical name.\<close>

definition no_clash_before :: "column_mapping \<Rightarrow> bool \<Rightarrow> bool \<Rightarrow> string list \<Rightarrow> nat \<Rightarrow> bool" where
  "no_clash_before m remove_punctuation lowercase_columns cols j =
     list_all (\<lambda>b. list_all (\<lambda>a. list_all (\<lambda>e.
         \<not> (resolves m remove_punctuation lowercase_columns (cols ! a) (fst e)
            \<and> resolves m remove_punctuation lowercase_columns (cols ! b) (fst e))) m)
       [0..<b]) [0..<j]"

section \<open>The two loops are the scan\<close>

lemma scan_xl_scan:
  "scan_xl m kws i rows mc hr =
     scan consecutive_xl (stop_xl kws) i (take (nat (m + 1) - i) rows) mc hr"
proof (induction rows arbitrary: i mc hr)
  case Nil
  show ?case by simp
next
  case (Cons r rows)
  show ?case
  proof (cases "int i > m")
    case True
    then have "nat (m + 1) - i = 0" by simp
    with True show ?thesis by simp
  next
    case False
    then have d: "nat (m + 1) - i = Suc (nat (m + 1) - Suc i)" by arith
    show ?thesis using False Cons.IH[of "Suc i"] by (simp add: d stop_xl_def)
  qed
qed

lemma locate_xl_scan:
  "locate_xl g m kws = scan consecutive_xl (stop_xl kws) 0 (scanned_xl m g) 0 0"
  by (simp add: locate_xl_def scanned_xl_def scan_xl_scan)

lemma scan_df_scan:
  "scan_df kws i rows mc hr = scan consecutive_df (stop_df kws) i rows mc hr"
  by (induction rows arbitrary: i mc hr) (simp_all add: stop_df_def)

lemma locate_df_scan:
  "locate_df g m kws = scan consecutive_df (stop_df kws) 0 (head_df m g) 0 0"
  by (simp add: locate_df_def scan_df_scan)

section \<open>Facts about the scan\<close>


lemma scan_first_stop:
  "k < length rows \<Longrightarrow> stop (rows ! k) \<Longrightarrow> mc < cnt (rows ! k) \<Longrightarrow>
   \<forall>j<k. cnt (rows ! j) < cnt (rows ! k) \<Longrightarrow>
   \<forall>j<k. \<not> (stop (rows ! j) \<and> mc < cnt (rows ! j) \<and> (\<forall>l<j. cnt (rows ! l) < cnt (rows ! j))) \<Longrightarrow>
   scan cnt stop i rows mc hr = i + k"
proof (induction rows arbitrary: i mc hr k)
  case Nil
  then show ?case by simp
next
  case (Cons r rows)
  show ?case
  proof (cases k)
    case 0
    with Cons.prems show ?thesis by simp
  next
    case (Suc k')
    from Cons.prems Suc have k': "k' < length rows" "stop (rows ! k')" "mc < cnt (rows ! k')"
      and lt: "cnt r < cnt (rows ! k')" "\<forall>j<k'. cnt (rows ! j) < cnt (rows ! k')"
      and r0: "\<not> (stop r \<and> mc < cnt r)"
      and nost: "\<forall>j<k'. \<not> (stop (rows ! j) \<and> mc < cnt (rows ! j) \<and> cnt r < cnt (rows ! j)
                  \<and> (\<forall>l<j. cnt (rows ! l) < cnt (rows ! j)))"
      by (auto simp: All_less_Suc2 Ex_less_Suc2)
    show ?thesis
    proof (cases "mc < cnt r")
      case True
      with r0 have ns: "\<not> stop r" by simp
      have "scan cnt stop (Suc i) rows (cnt r) i = Suc i + k'"
        using k' lt nost True by (intro Cons.IH) auto
      with True ns Suc show ?thesis by simp
    next
      case False
      have "scan cnt stop (Suc i) rows mc hr = Suc i + k'"
        using k' lt nost False by (intro Cons.IH) auto
      with False Suc show ?thesis by simp
    qed
  qed
qed

lemma scan_no_stop:
  "\<forall>j<length rows. \<not> (stop (rows ! j) \<and> mc < cnt (rows ! j) \<and> (\<forall>l<j. cnt (rows ! l) < cnt (rows ! j))) \<Longrightarrow>
   scan cnt stop i rows mc hr = scan cnt (\<lambda>_. False) i rows mc hr"
proof (induction rows arbitrary: i mc hr)
  case Nil
  then show ?case by simp
next
  case (Cons r rows)
  from Cons.prems have r0: "\<not> (stop r \<and> mc < cnt r)"
      and nost: "\<forall>j<length rows. \<not> (stop (rows ! j) \<and> mc < cnt (rows ! j) \<and> cnt r < cnt (rows ! j)
                  \<and> (\<forall>l<j. cnt (rows ! l) < cnt (rows ! j)))"
    by (auto simp: All_less_Suc2 Ex_less_Suc2)
  show ?case
  proof (cases "mc < cnt r")
    case True
    with r0 have ns: "\<not> stop r" by simp
    have "scan cnt stop (Suc i) rows (cnt r) i = scan cnt (\<lambda>_. False) (Suc i) rows (cnt r) i"
      using nost True by (intro Cons.IH) auto
    with True ns show ?thesis by simp
  next
    case False
    have "scan cnt stop (Suc i) rows mc hr = scan cnt (\<lambda>_. False) (Suc i) rows mc hr"
      using nost False by (intro Cons.IH) auto
    with False show ?thesis by simp
  qed
qed

lemma scan_all_rows:
  "(\<forall>j<length rows. cnt (rows ! j) \<le> mc) \<and> scan cnt (\<lambda>_. False) i rows mc hr = hr
   \<or> (\<exists>k<length rows. scan cnt (\<lambda>_. False) i rows mc hr = i + k \<and> mc < cnt (rows ! k)
        \<and> (\<forall>j<k. cnt (rows ! j) < cnt (rows ! k))
        \<and> (\<forall>j<length rows. cnt (rows ! j) \<le> cnt (rows ! k)))"
proof (induction rows arbitrary: i mc hr)
  case Nil
  show ?case by simp
next
  case (Cons r rows)
  show ?case
  proof (cases "mc < cnt r")
    case True
    from Cons.IH[of "cnt r" "Suc i" i] show ?thesis
    proof
      assume a: "(\<forall>j<length rows. cnt (rows ! j) \<le> cnt r) \<and>
           scan cnt (\<lambda>_. False) (Suc i) rows (cnt r) i = i"
      have "\<exists>k<length (r # rows). scan cnt (\<lambda>_. False) i (r # rows) mc hr = i + k \<and> mc < cnt ((r # rows) ! k)
        \<and> (\<forall>j<k. cnt ((r # rows) ! j) < cnt ((r # rows) ! k))
        \<and> (\<forall>j<length (r # rows). cnt ((r # rows) ! j) \<le> cnt ((r # rows) ! k))"
        using a True by (intro exI[of _ 0]) (auto simp: All_less_Suc2)
      then show ?thesis by blast
    next
      assume "\<exists>k<length rows. scan cnt (\<lambda>_. False) (Suc i) rows (cnt r) i = Suc i + k \<and> cnt r < cnt (rows ! k)
        \<and> (\<forall>j<k. cnt (rows ! j) < cnt (rows ! k))
        \<and> (\<forall>j<length rows. cnt (rows ! j) \<le> cnt (rows ! k))"
      then obtain k where k: "k < length rows" "scan cnt (\<lambda>_. False) (Suc i) rows (cnt r) i = Suc i + k"
        "cnt r < cnt (rows ! k)" "\<forall>j<k. cnt (rows ! j) < cnt (rows ! k)"
        "\<forall>j<length rows. cnt (rows ! j) \<le> cnt (rows ! k)" by blast
      have "\<exists>k<length (r # rows). scan cnt (\<lambda>_. False) i (r # rows) mc hr = i + k \<and> mc < cnt ((r # rows) ! k)
        \<and> (\<forall>j<k. cnt ((r # rows) ! j) < cnt ((r # rows) ! k))
        \<and> (\<forall>j<length (r # rows). cnt ((r # rows) ! j) \<le> cnt ((r # rows) ! k))"
        using k True by (intro exI[of _ "Suc k"]) (auto simp: All_less_Suc2)
      then show ?thesis by blast
    qed
  next
    case False
    from Cons.IH[of mc "Suc i" hr] show ?thesis
    proof
      assume a: "(\<forall>j<length rows. cnt (rows ! j) \<le> mc) \<and>
           scan cnt (\<lambda>_. False) (Suc i) rows mc hr = hr"
      then show ?thesis using False by (auto simp: All_less_Suc2 Ex_less_Suc2)
    next
      assume "\<exists>k<length rows. scan cnt (\<lambda>_. False) (Suc i) rows mc hr = Suc i + k \<and> mc < cnt (rows ! k)
        \<and> (\<forall>j<k. cnt (rows ! j) < cnt (rows ! k))
        \<and> (\<forall>j<length rows. cnt (rows ! j) \<le> cnt (rows ! k))"
      then obtain k where k: "k < length rows" "scan cnt (\<lambda>_. False) (Suc i) rows mc hr = Suc i + k"
        "mc < cnt (rows ! k)" "\<forall>j<k. cnt (rows ! j) < cnt (rows ! k)"
        "\<forall>j<length rows. cnt (rows ! j) \<le> cnt (rows ! k)" by blast
      have "\<exists>k<length (r # rows). scan cnt (\<lambda>_. False) i (r # rows) mc hr = i + k \<and> mc < cnt ((r # rows) ! k)
        \<and> (\<forall>j<k. cnt ((r # rows) ! j) < cnt ((r # rows) ! k))
        \<and> (\<forall>j<length (r # rows). cnt ((r # rows) ! j) \<le> cnt ((r # rows) ! k))"
        using k False by (intro exI[of _ "Suc k"]) (auto simp: All_less_Suc2)
      then show ?thesis by blast
    qed
  qed
qed


lemma scan_range:
  "scan cnt stop i rows mc hr = hr \<or> (\<exists>k<length rows. scan cnt stop i rows mc hr = i + k)"
proof (induction rows arbitrary: i mc hr)
  case Nil
  show ?case by simp
next
  case (Cons r rows)
  have step: "\<And>mc' hr'. scan cnt stop (Suc i) rows mc' hr' = hr'
      \<or> (\<exists>k<length (r # rows). scan cnt stop (Suc i) rows mc' hr' = i + k)"
  proof -
    fix mc' hr'
    from Cons.IH[of "Suc i" mc' hr'] show "scan cnt stop (Suc i) rows mc' hr' = hr'
      \<or> (\<exists>k<length (r # rows). scan cnt stop (Suc i) rows mc' hr' = i + k)"
    proof
      assume "scan cnt stop (Suc i) rows mc' hr' = hr'"
      then show ?thesis by simp
    next
      assume "\<exists>k<length rows. scan cnt stop (Suc i) rows mc' hr' = Suc i + k"
      then obtain k where "k < length rows" "scan cnt stop (Suc i) rows mc' hr' = Suc i + k"
        by blast
      then have "Suc k < length (r # rows) \<and> scan cnt stop (Suc i) rows mc' hr' = i + Suc k"
        by simp
      then show ?thesis by blast
    qed
  qed
  have zero: "\<exists>k<length (r # rows). i = i + k" by (intro exI[of _ 0]) simp
  show ?case
  proof (cases "mc < cnt r")
    case True
    show ?thesis
    proof (cases "stop r")
      case True
      with \<open>mc < cnt r\<close> zero show ?thesis by simp
    next
      case False
      from step[of "cnt r" i] zero True False show ?thesis by auto
    qed
  next
    case False
    with step[of mc hr] show ?thesis by simp
  qed
qed

section \<open>The properties of the specification, by index\<close>

lemma fold_max_less: "fold max xs a < (c::nat) \<longleftrightarrow> a < c \<and> (\<forall>x\<in>set xs. x < c)"
  by (induction xs arbitrary: a) auto

lemma improves_iff:
  assumes "j < length w"
  shows "improves cnt w j \<longleftrightarrow> 0 < cnt (w ! j) \<and> (\<forall>l<j. cnt (w ! l) < cnt (w ! j))"
proof -
  have "(\<forall>x\<in>set (take j w). cnt x < cnt (w ! j)) \<longleftrightarrow> (\<forall>l<j. cnt (w ! l) < cnt (w ! j))"
    using assms by (simp add: all_set_conv_all_nth)
  then show ?thesis by (simp add: improves_def running_max_def fold_max_less)
qed

lemma keyword_improvement_take:
  assumes "j \<le> i" and "take (Suc i) w' = take (Suc i) w"
  shows "keyword_improvement cnt kw w' j = keyword_improvement cnt kw w j"
proof -
  have "take (Suc i) w' ! j = take (Suc i) w ! j" using assms(2) by simp
  with assms(1) have nth: "w' ! j = w ! j" by simp
  have "take j (take (Suc i) w') = take j (take (Suc i) w)" using assms(2) by simp
  with assms(1) have "take j w' = take j w" by (simp add: min_def)
  with nth show ?thesis by (simp add: keyword_improvement_def improves_def running_max_def)
qed

lemma first_keyword_improvement_take:
  assumes "first_keyword_improvement cnt kw w i" and "take (Suc i) w' = take (Suc i) w"
  shows "first_keyword_improvement cnt kw w' i"
proof -
  from assms(1) have i: "i < length w" by (simp add: first_keyword_improvement_def)
  have "length (take (Suc i) w') = length (take (Suc i) w)" using assms(2) by simp
  with i have i': "i < length w'" by simp
  have "\<And>j. j \<le> i \<Longrightarrow> keyword_improvement cnt kw w' j = keyword_improvement cnt kw w j"
    by (rule keyword_improvement_take[OF _ assms(2)])
  with assms(1) i' show ?thesis
    by (simp add: first_keyword_improvement_def list_all_iff)
qed

lemma scan_first_keyword_improvement:
  assumes "first_keyword_improvement cnt kw w i"
  shows "scan cnt kw 0 w 0 0 = i"
proof -
  from assms have i: "i < length w" and ki: "keyword_improvement cnt kw w i"
    and no: "\<forall>j<i. \<not> keyword_improvement cnt kw w j"
    by (auto simp: first_keyword_improvement_def list_all_iff)
  from ki i have a: "kw (w ! i)" "0 < cnt (w ! i)" "\<forall>j<i. cnt (w ! j) < cnt (w ! i)"
    by (simp_all add: keyword_improvement_def improves_iff)
  have b: "\<forall>j<i. \<not> (kw (w ! j) \<and> 0 < cnt (w ! j) \<and> (\<forall>l<j. cnt (w ! l) < cnt (w ! j)))"
  proof (intro allI impI)
    fix j assume "j < i"
    with no i have "\<not> keyword_improvement cnt kw w j" "j < length w" by simp_all
    then show "\<not> (kw (w ! j) \<and> 0 < cnt (w ! j) \<and> (\<forall>l<j. cnt (w ! l) < cnt (w ! j)))"
      by (simp add: keyword_improvement_def improves_iff)
  qed
  from scan_first_stop[OF i a(1) a(2) a(3) b, of 0 0] show ?thesis by simp
qed

lemma scan_no_keyword_improvement:
  assumes "no_keyword_improvement cnt kw w"
  shows "scan cnt kw 0 w 0 0 = scan cnt (\<lambda>_. False) 0 w 0 0"
proof -
  have "\<forall>j<length w. \<not> (kw (w ! j) \<and> 0 < cnt (w ! j) \<and> (\<forall>l<j. cnt (w ! l) < cnt (w ! j)))"
  proof (intro allI impI)
    fix j assume j: "j < length w"
    with assms have "\<not> keyword_improvement cnt kw w j"
      by (simp add: no_keyword_improvement_def list_all_iff)
    with j show "\<not> (kw (w ! j) \<and> 0 < cnt (w ! j) \<and> (\<forall>l<j. cnt (w ! l) < cnt (w ! j)))"
      by (simp add: keyword_improvement_def improves_iff)
  qed
  then show ?thesis by (rule scan_no_stop)
qed

lemma scan_first_widest:
  assumes "w \<noteq> []"
  shows "first_widest cnt w (scan cnt (\<lambda>_. False) 0 w 0 0)"
proof -
  from scan_all_rows[of w cnt 0 0 0] show ?thesis
  proof
    assume a: "(\<forall>j<length w. cnt (w ! j) \<le> 0) \<and> scan cnt (\<lambda>_. False) 0 w 0 0 = 0"
    then have "\<forall>r\<in>set w. cnt r = 0" by (simp add: all_set_conv_all_nth)
    with a assms show ?thesis by (simp add: first_widest_def list_all_iff)
  next
    assume "\<exists>k<length w. scan cnt (\<lambda>_. False) 0 w 0 0 = 0 + k \<and> 0 < cnt (w ! k)
        \<and> (\<forall>j<k. cnt (w ! j) < cnt (w ! k)) \<and> (\<forall>j<length w. cnt (w ! j) \<le> cnt (w ! k))"
    then obtain k where k: "k < length w" "scan cnt (\<lambda>_. False) 0 w 0 0 = k"
      "\<forall>j<k. cnt (w ! j) < cnt (w ! k)" "\<forall>j<length w. cnt (w ! j) \<le> cnt (w ! k)" by auto
    from k(4) have "\<forall>r\<in>set w. cnt r \<le> cnt (w ! k)" by (simp add: all_set_conv_all_nth)
    moreover from k(1,3) have "\<forall>r\<in>set (take k w). cnt r < cnt (w ! k)"
      by (simp add: all_set_conv_all_nth)
    ultimately show ?thesis using k(1,2) by (simp add: first_widest_def list_all_iff)
  qed
qed

lemma first_widest_only:
  assumes "only_widest cnt w k" and "first_widest cnt w r"
  shows "r = k"
proof (rule ccontr)
  assume "r \<noteq> k"
  from assms(2) have r: "r < length w" "\<forall>x\<in>set w. cnt x \<le> cnt (w ! r)"
    by (simp_all add: first_widest_def list_all_iff)
  from assms(1) have k: "k < length w" "\<forall>j<length w. j = k \<or> cnt (w ! j) < cnt (w ! k)"
    by (simp_all add: only_widest_def list_all_iff)
  from k(2) r(1) \<open>r \<noteq> k\<close> have "cnt (w ! r) < cnt (w ! k)" by blast
  moreover from r(2) k(1) have "cnt (w ! k) \<le> cnt (w ! r)" by simp
  ultimately show False by simp
qed

lemma scan_only_widest:
  assumes "only_widest cnt w k"
  shows "scan cnt (\<lambda>_. False) 0 w 0 0 = k"
proof -
  from assms have "w \<noteq> []" by (auto simp: only_widest_def)
  then have "first_widest cnt w (scan cnt (\<lambda>_. False) 0 w 0 0)" by (rule scan_first_widest)
  with assms show ?thesis by (rule first_widest_only)
qed

lemma stop_xl_none: "\<not> keywords_given kws \<Longrightarrow> stop_xl kws = (\<lambda>_. False)"
  by (simp add: stop_xl_def fun_eq_iff)

lemma stop_df_none: "\<not> keywords_given kws \<Longrightarrow> stop_df kws = (\<lambda>_. False)"
  by (simp add: stop_df_def fun_eq_iff)

lemma stop_xl_some: "ks \<noteq> [] \<Longrightarrow> stop_xl (Some ks) = all_keywords_xl ks"
  by (simp add: stop_xl_def fun_eq_iff)

lemma stop_df_some: "ks \<noteq> [] \<Longrightarrow> stop_df (Some ks) = all_keywords_df ks"
  by (simp add: stop_df_def fun_eq_iff)

lemma locate_df_below_max_rows:
  assumes "1 \<le> m" and "m \<le> int (length g)"
  shows "int (locate_df g m kws) < m"
proof -
  from assms have len: "length (head_df m g) = nat m" by (simp add: head_df_def)
  from scan_range[of consecutive_df "stop_df kws" 0 "head_df m g" 0 0]
  have "locate_df g m kws = 0 \<or> locate_df g m kws < nat m"
    by (auto simp: locate_df_scan len)
  with assms(1) show ?thesis by auto
qed

lemma locate_df_only_head:
  "head_df m g = head_df m g' \<Longrightarrow> locate_df g m kws = locate_df g' m kws"
  by (simp add: locate_df_def)

lemma locate_xl_only_scanned:
  "scanned_xl m g = scanned_xl m g' \<Longrightarrow> locate_xl g m kws = locate_xl g' m kws"
  by (simp add: locate_xl_scan)

section \<open>The claims on the header locator\<close>

text \<open>
  Claim C1. With no keywords, when exactly one scanned row \<open>k\<close> has strictly more leading
  non-blank cells than every other scanned row, both locators return \<open>k\<close>. More
  generally the scan keeps the running maximum and the row where it was first reached,
  since a row replaces the candidate only when its count is strictly larger: on scanned
  rows that are not empty the result is the first row with the largest count.
\<close>
theorem header_row_is_only_widest_row:
  assumes "\<not> keywords_given kws"
  shows "(only_widest consecutive_xl (scanned_xl m g) k \<longrightarrow> locate_xl g m kws = k)
       \<and> (only_widest consecutive_df (head_df m g) k \<longrightarrow> locate_df g m kws = k)
       \<and> (scanned_xl m g \<noteq> [] \<longrightarrow>
            first_widest consecutive_xl (scanned_xl m g) (locate_xl g m kws))
       \<and> (head_df m g \<noteq> [] \<longrightarrow>
            first_widest consecutive_df (head_df m g) (locate_df g m kws))"
  using assms
  by (simp add: locate_xl_scan locate_df_scan stop_xl_none stop_df_none
      scan_only_widest scan_first_widest)

theorem header_row_is_only_widest_row_witness:
  "\<not> keywords_given None
   \<and> only_widest consecutive_xl
       (scanned_xl 200 [[Text ''Report'', Text ''''], [Text ''id'', Text ''qty'', Text ''date''],
          [Number 7, Number 2]]) 1
   \<and> locate_xl [[Text ''Report'', Text ''''], [Text ''id'', Text ''qty'', Text ''date''],
          [Number 7, Number 2]] 200 None = 1
   \<and> only_widest consecutive_df
       (head_df 200 [[Text ''Report'', Text ''''], [Text ''id'', Text ''qty'', Text ''date''],
          [Number 7, Number 2]]) 1
   \<and> locate_df [[Text ''Report'', Text ''''], [Text ''id'', Text ''qty'', Text ''date''],
          [Number 7, Number 2]] 200 None = 1"
proof -
  have n: "\<not> keywords_given None" by simp
  have a: "only_widest consecutive_xl
       (scanned_xl 200 [[Text ''Report'', Text ''''], [Text ''id'', Text ''qty'', Text ''date''],
          [Number 7, Number 2]]) 1" by code_simp
  have b: "only_widest consecutive_df
       (head_df 200 [[Text ''Report'', Text ''''], [Text ''id'', Text ''qty'', Text ''date''],
          [Number 7, Number 2]]) 1" by code_simp
  from header_row_is_only_widest_row[OF n, of 200
      "[[Text ''Report'', Text ''''], [Text ''id'', Text ''qty'', Text ''date''],
          [Number 7, Number 2]]" 1] a b n
  show ?thesis by blast
qed

text \<open>
  Claim C2. On the grid with the banner row \<open>["Report", "", "", ""]\<close> at index 0 and
  the header row \<open>["po number", "qty", "date"]\<close> at index 1, with the keywords
  \<open>["po number"]\<close> and the default \<open>max_rows\<close> of 200, both locators return 1.
\<close>
theorem banner_then_header_with_keyword:
  "locate_xl [[Text ''Report'', Text '''', Text '''', Text ''''],
              [Text ''po number'', Text ''qty'', Text ''date'']] 200 (Some [''po number'']) = 1
   \<and> locate_df [[Text ''Report'', Text '''', Text '''', Text ''''],
              [Text ''po number'', Text ''qty'', Text ''date'']] 200 (Some [''po number'']) = 1"
  by code_simp

text \<open>
  Claim C3. With keywords that are not empty, when row \<open>i\<close> is the first scanned row
  that both holds every keyword and strictly improves on the running maximum, the scan
  ends there and returns \<open>i\<close>, whatever the rows after \<open>i\<close> are: every grid whose
  scanned rows agree up to row \<open>i\<close> gives \<open>i\<close>. When no scanned row does both, even if
  some hold every keyword, the keywords do not end the scan: the result is that of the
  scan without keywords.
\<close>
theorem keyword_improvement_ends_scan:
  assumes "ks \<noteq> []"
  shows "(first_keyword_improvement consecutive_xl (all_keywords_xl ks) (scanned_xl m g) i \<longrightarrow>
            locate_xl g m (Some ks) = i
            \<and> (\<forall>g'. take (Suc i) (scanned_xl m g') = take (Suc i) (scanned_xl m g) \<longrightarrow>
                  locate_xl g' m (Some ks) = i))
       \<and> (no_keyword_improvement consecutive_xl (all_keywords_xl ks) (scanned_xl m g) \<longrightarrow>
            locate_xl g m (Some ks) = locate_xl g m None)
       \<and> (first_keyword_improvement consecutive_df (all_keywords_df ks) (head_df m g) i \<longrightarrow>
            locate_df g m (Some ks) = i
            \<and> (\<forall>g'. take (Suc i) (head_df m g') = take (Suc i) (head_df m g) \<longrightarrow>
                  locate_df g' m (Some ks) = i))
       \<and> (no_keyword_improvement consecutive_df (all_keywords_df ks) (head_df m g) \<longrightarrow>
            locate_df g m (Some ks) = locate_df g m None)"
proof -
  have xl1: "locate_xl g' m (Some ks) = i"
    if "first_keyword_improvement consecutive_xl (all_keywords_xl ks) (scanned_xl m g) i"
      and "take (Suc i) (scanned_xl m g') = take (Suc i) (scanned_xl m g)" for g'
    using first_keyword_improvement_take[OF that] assms
    by (simp add: locate_xl_scan stop_xl_some scan_first_keyword_improvement)
  have xl2: "locate_xl g m (Some ks) = locate_xl g m None"
    if "no_keyword_improvement consecutive_xl (all_keywords_xl ks) (scanned_xl m g)"
    using scan_no_keyword_improvement[OF that] assms
    by (simp add: locate_xl_scan stop_xl_some stop_xl_none)
  have df1: "locate_df g' m (Some ks) = i"
    if "first_keyword_improvement consecutive_df (all_keywords_df ks) (head_df m g) i"
      and "take (Suc i) (head_df m g') = take (Suc i) (head_df m g)" for g'
    using first_keyword_improvement_take[OF that] assms
    by (simp add: locate_df_scan stop_df_some scan_first_keyword_improvement)
  have df2: "locate_df g m (Some ks) = locate_df g m None"
    if "no_keyword_improvement consecutive_df (all_keywords_df ks) (head_df m g)"
    using scan_no_keyword_improvement[OF that] assms
    by (simp add: locate_df_scan stop_df_some stop_df_none)
  from xl1 xl2 df1 df2 show ?thesis by blast
qed

theorem keyword_improvement_ends_scan_witness:
  "[''po number''] \<noteq> []
   \<and> first_keyword_improvement consecutive_xl (all_keywords_xl [''po number''])
       (scanned_xl 200 [[Text ''Report'', Text ''''], [Text ''PO Number'', Text ''qty''],
          [Text ''a'', Text ''b'', Text ''c'']]) 1
   \<and> locate_xl [[Text ''Report'', Text ''''], [Text ''PO Number'', Text ''qty''],
          [Text ''a'', Text ''b'', Text ''c'']] 200 (Some [''po number'']) = 1
   \<and> no_keyword_improvement consecutive_df (all_keywords_df [''po number''])
       (head_df 200 [[Text ''x'', Text ''y''], [Text ''po number'', Text ''qty''],
          [Text ''a'', Text ''b'', Text ''c'']])
   \<and> locate_df [[Text ''x'', Text ''y''], [Text ''po number'', Text ''qty''],
          [Text ''a'', Text ''b'', Text ''c'']] 200 (Some [''po number''])
       = locate_df [[Text ''x'', Text ''y''], [Text ''po number'', Text ''qty''],
          [Text ''a'', Text ''b'', Text ''c'']] 200 None"
proof -
  have n: "[''po number''] \<noteq> []" by simp
  have a: "first_keyword_improvement consecutive_xl (all_keywords_xl [''po number''])
       (scanned_xl 200 [[Text ''Report'', Text ''''], [Text ''PO Number'', Text ''qty''],
          [Text ''a'', Text ''b'', Text ''c'']]) 1" by code_simp
  have b: "no_keyword_improvement consecutive_df (all_keywords_df [''po number''])
       (head_df 200 [[Text ''x'', Text ''y''], [Text ''po number'', Text ''qty''],
          [Text ''a'', Text ''b'', Text ''c'']])" by code_simp
  from keyword_improvement_ends_scan[OF n, of 200
      "[[Text ''Report'', Text ''''], [Text ''PO Number'', Text ''qty''],
          [Text ''a'', Text ''b'', Text ''c'']]" 1] a
  have c: "locate_xl [[Text ''Report'', Text ''''], [Text ''PO Number'', Text ''qty''],
          [Text ''a'', Text ''b'', Text ''c'']] 200 (Some [''po number'']) = 1" by blast
  from keyword_improvement_ends_scan[OF n, of 200
      "[[Text ''x'', Text ''y''], [Text ''po number'', Text ''qty''],
          [Text ''a'', Text ''b'', Text ''c'']]"] b
  have d: "locate_df [[Text ''x'', Text ''y''], [Text ''po number'', Text ''qty''],
          [Text ''a'', Text ''b'', Text ''c'']] 200 (Some [''po number''])
       = locate_df [[Text ''x'', Text ''y''], [Text ''po number'', Text ''qty''],
          [Text ''a'', Text ''b'', Text ''c'']] 200 None" by blast
  from n a b c d show ?thesis by blast
qed

text \<open>
  Claim C4. The two locators are not equal as functions: on the grid below the loop of
  excel/find\_header\_row.py returns 0 and the loop of df/read\_excel.py returns 1. The
  number 0 and the boolean False are blank for the first and not blank for the second.
\<close>
theorem locators_disagree:
  "locate_xl [[Number 1, Absent], [Number 0, Text ''b'']] 200 None = 0
   \<and> locate_df [[Number 1, Absent], [Number 0, Text ''b'']] 200 None = 1
   \<and> \<not> truthy (Number 0) \<and> nonblank_df (Number 0)
   \<and> \<not> truthy (Boolean False) \<and> nonblank_df (Boolean False)"
  by code_simp

text \<open>
  Claim C5, at the input where the excel variant departs from it. With \<open>max_rows = 1\<close>
  and a grid of two rows the loop of excel/find\_header\_row.py also reads the row at index
  \<open>max_rows\<close>: it returns 1, which is not below \<open>max_rows\<close>, and returns 0 when that
  row is changed. The loop of df/read\_excel.py returns 0 on the same input, and
  \<open>locate_df_below_max_rows\<close> and \<open>locate_df_only_head\<close> above show that it keeps to
  the first \<open>max_rows\<close> rows on every input.
\<close>
theorem locate_xl_reads_row_max_rows:
  "locate_xl [[Text ''''], [Text ''a'']] 1 None = 1
   \<and> locate_xl [[Text ''''], [Text '''']] 1 None = 0
   \<and> locate_df [[Text ''''], [Text ''a'']] 1 None = 0"
  by code_simp

text \<open>
  Claim C9. In excel/find\_header\_row.py a \<open>sheet_id\<close> other than 0 never reaches the
  sheet lookup: without a sheet name the sheet at index 0 is scanned, and with one the
  call fails. A \<open>sheet_id\<close> of 0 behaves as no \<open>sheet_id\<close> at all, also in the check
  that forbids giving both selectors.
\<close>
theorem sheet_id_never_selects:
  "(sid \<noteq> 0 \<and> \<not> name_given nm \<longrightarrow>
      find_header_row_xl wb (Some sid) nm m kws =
        (case get_sheet_by_index wb 0 of Inl e \<Rightarrow> Inl e | Inr ws \<Rightarrow> Inr (locate_xl ws m kws)))
   \<and> (sid \<noteq> 0 \<and> name_given nm \<longrightarrow> find_header_row_xl wb (Some sid) nm m kws = Inl BothSelectors)
   \<and> find_header_row_xl wb (Some 0) nm m kws = find_header_row_xl wb None nm m kws"
  by (simp add: find_header_row_xl_def)

theorem sheet_id_never_selects_witness:
  "(1::int) \<noteq> 0 \<and> \<not> name_given None
   \<and> find_header_row_xl
        [(''Sheet1'', [[Text ''id'', Text ''qty'']]),
         (''Sheet2'', [[Text ''''], [Text ''id'', Text ''qty'']])] (Some 1) None 200 None = Inr 0
   \<and> get_sheet_by_index
        [(''Sheet1'', [[Text ''id'', Text ''qty'']]),
         (''Sheet2'', [[Text ''''], [Text ''id'', Text ''qty'']])] 1
       = Inr [[Text ''''], [Text ''id'', Text ''qty'']]
   \<and> locate_xl [[Text ''''], [Text ''id'', Text ''qty'']] 200 None = 1"
proof -
  have a: "(1::int) \<noteq> 0 \<and> \<not> name_given None" by simp
  have b: "(case get_sheet_by_index
        [(''Sheet1'', [[Text ''id'', Text ''qty'']]),
         (''Sheet2'', [[Text ''''], [Text ''id'', Text ''qty'']])] 0 of
         Inl e \<Rightarrow> Inl e | Inr ws \<Rightarrow> Inr (locate_xl ws 200 None)) = Inr 0" by code_simp
  have c: "get_sheet_by_index
        [(''Sheet1'', [[Text ''id'', Text ''qty'']]),
         (''Sheet2'', [[Text ''''], [Text ''id'', Text ''qty'']])] 1
       = Inr [[Text ''''], [Text ''id'', Text ''qty'']]" by code_simp
  have d: "locate_xl [[Text ''''], [Text ''id'', Text ''qty'']] 200 None = 1" by code_simp
  from sheet_id_never_selects[of 1 None
        "[(''Sheet1'', [[Text ''id'', Text ''qty'']]),
         (''Sheet2'', [[Text ''''], [Text ''id'', Text ''qty'']])]" 200 None] a b
  have "find_header_row_xl
        [(''Sheet1'', [[Text ''id'', Text ''qty'']]),
         (''Sheet2'', [[Text ''''], [Text ''id'', Text ''qty'']])] (Some 1) None 200 None = Inr 0"
    by simp
  with a c d show ?thesis by blast
qed

section \<open>The reverse mapping\<close>

lemma add_names_ok:
  "distinct (map lower names) \<Longrightarrow> \<forall>n\<in>set names. rm (lower n) = None \<Longrightarrow>
   add_names f names rm = Inr (\<lambda>k. if k \<in> set (map lower names) then Some f else rm k)"
proof (induction names arbitrary: rm)
  case Nil
  show ?case by simp
next
  case (Cons n ns)
  from Cons.prems have d: "distinct (map lower ns)" and n: "lower n \<notin> set (map lower ns)"
    and none: "rm (lower n) = None" by simp_all
  have ne: "\<forall>x\<in>set ns. lower x \<noteq> lower n"
  proof (intro ballI notI)
    fix x assume "x \<in> set ns" "lower x = lower n"
    then have "lower n \<in> set (map lower ns)" by (metis imageI list.set_map)
    with n show False by simp
  qed
  with Cons.prems have "\<forall>x\<in>set ns. (rm(lower n \<mapsto> f)) (lower x) = None" by simp
  with d have ih: "add_names f ns (rm(lower n \<mapsto> f)) =
      Inr (\<lambda>k. if k \<in> set (map lower ns) then Some f else (rm(lower n \<mapsto> f)) k)"
    by (rule Cons.IH)
  have step: "add_names f (n # ns) rm = add_names f ns (rm(lower n \<mapsto> f))"
    using none by simp
  have eq: "(\<lambda>k. if k \<in> set (map lower ns) then Some f else (rm(lower n \<mapsto> f)) k)
      = (\<lambda>k. if k \<in> set (map lower (n # ns)) then Some f else rm k)"
    by (auto simp: fun_eq_iff)
  show ?case by (simp only: step ih eq)
qed

lemma add_names_fail:
  "\<not> (distinct (map lower names) \<and> (\<forall>n\<in>set names. rm (lower n) = None)) \<Longrightarrow>
   \<exists>n p. add_names f names rm = Inl (AmbiguousMapping n p f)"
proof (induction names arbitrary: rm)
  case Nil
  then show ?case by simp
next
  case (Cons n ns)
  show ?case
  proof (cases "rm (lower n)")
    case (Some p)
    then show ?thesis by auto
  next
    case None
    have "\<not> (distinct (map lower ns) \<and> (\<forall>x\<in>set ns. (rm(lower n \<mapsto> f)) (lower x) = None))"
    proof
      assume a: "distinct (map lower ns) \<and> (\<forall>x\<in>set ns. (rm(lower n \<mapsto> f)) (lower x) = None)"
      then have "\<forall>x\<in>set ns. lower x \<noteq> lower n" by (auto split: if_splits)
      with a None have "distinct (map lower (n # ns)) \<and> (\<forall>x\<in>set (n # ns). rm (lower x) = None)"
        by (auto split: if_splits)
      with Cons.prems show False by blast
    qed
    from Cons.IH[of "rm(lower n \<mapsto> f)", OF this] obtain n' p
      where "add_names f ns (rm(lower n \<mapsto> f)) = Inl (AmbiguousMapping n' p f)" by blast
    moreover have "add_names f (n # ns) rm = add_names f ns (rm(lower n \<mapsto> f))"
      using None by simp
    ultimately have "add_names f (n # ns) rm = Inl (AmbiguousMapping n' p f)" by (simp only:)
    then show ?thesis by blast
  qed
qed

lemma all_alias_keys_Cons:
  "all_alias_keys (e # rest) = alias_keys (snd e) @ all_alias_keys rest"
  by (simp add: all_alias_keys_def)

lemma lookup_alias_None: "lookup_alias m k = None \<longleftrightarrow> k \<notin> set (all_alias_keys m)"
  by (induction m) (auto simp: all_alias_keys_Cons all_alias_keys_def)

lemma lookup_alias_Some:
  "distinct (all_alias_keys m) \<Longrightarrow>
   lookup_alias m k = Some f \<longleftrightarrow> (\<exists>e\<in>set m. fst e = f \<and> k \<in> set (alias_keys (snd e)))"
proof (induction m)
  case Nil
  show ?case by simp
next
  case (Cons e rest)
  from Cons.prems have d: "distinct (all_alias_keys rest)"
    and disj: "set (alias_keys (snd e)) \<inter> set (all_alias_keys rest) = {}"
    by (simp_all add: all_alias_keys_Cons)
  show ?case
  proof (cases "k \<in> set (alias_keys (snd e))")
    case True
    with disj have "k \<notin> set (all_alias_keys rest)" by blast
    then have "\<forall>e'\<in>set rest. k \<notin> set (alias_keys (snd e'))"
      by (auto simp: all_alias_keys_def)
    with True show ?thesis by auto
  next
    case False
    with Cons.IH[OF d] show ?thesis by auto
  qed
qed

lemma build_reverse_ok:
  "distinct (all_alias_keys m) \<Longrightarrow> \<forall>k\<in>set (all_alias_keys m). rm k = None \<Longrightarrow>
   build_reverse m rm = Inr (\<lambda>k. case lookup_alias m k of Some f \<Rightarrow> Some f | None \<Rightarrow> rm k)"
proof (induction m arbitrary: rm)
  case Nil
  show ?case by simp
next
  case (Cons e rest)
  obtain f v where e: "e = (f, v)" by (cases e)
  from Cons.prems have dv: "distinct (map lower (possible_names v))"
    and d: "distinct (all_alias_keys rest)"
    and disj: "set (alias_keys v) \<inter> set (all_alias_keys rest) = {}"
    and nv: "\<forall>n\<in>set (possible_names v). rm (lower n) = None"
    and nr: "\<forall>k\<in>set (all_alias_keys rest). rm k = None"
    by (auto simp: all_alias_keys_Cons e alias_keys_def)
  let ?rm1 = "\<lambda>k. if k \<in> set (map lower (possible_names v)) then Some f else rm k"
  have add: "add_names f (possible_names v) rm = Inr ?rm1" using dv nv by (rule add_names_ok)
  from disj nr have "\<forall>k\<in>set (all_alias_keys rest). ?rm1 k = None"
    by (auto simp: alias_keys_def)
  from Cons.IH[OF d this]
  have "build_reverse rest ?rm1 =
      Inr (\<lambda>k. case lookup_alias rest k of Some f \<Rightarrow> Some f | None \<Rightarrow> ?rm1 k)" .
  moreover have "(\<lambda>k. case lookup_alias rest k of Some f \<Rightarrow> Some f | None \<Rightarrow> ?rm1 k)
      = (\<lambda>k. case lookup_alias (e # rest) k of Some f \<Rightarrow> Some f | None \<Rightarrow> rm k)"
  proof
    fix k
    show "(case lookup_alias rest k of Some f \<Rightarrow> Some f | None \<Rightarrow> ?rm1 k)
      = (case lookup_alias (e # rest) k of Some f \<Rightarrow> Some f | None \<Rightarrow> rm k)"
    proof (cases "k \<in> set (alias_keys v)")
      case True
      with disj have "lookup_alias rest k = None" by (auto simp: lookup_alias_None)
      with True show ?thesis by (simp add: e alias_keys_def)
    next
      case False
      then show ?thesis by (simp add: e alias_keys_def)
    qed
  qed
  ultimately show ?case using add by (simp add: e)
qed

lemma build_reverse_fail:
  "\<not> (distinct (all_alias_keys m) \<and> (\<forall>k\<in>set (all_alias_keys m). rm k = None)) \<Longrightarrow>
   \<exists>n p f. build_reverse m rm = Inl (AmbiguousMapping n p f)"
proof (induction m arbitrary: rm)
  case Nil
  then show ?case by (simp add: all_alias_keys_def)
next
  case (Cons e rest)
  obtain f v where e: "e = (f, v)" by (cases e)
  show ?case
  proof (cases "distinct (map lower (possible_names v))
                 \<and> (\<forall>n\<in>set (possible_names v). rm (lower n) = None)")
    case False
    from add_names_fail[OF this, of f] show ?thesis by (auto simp: e)
  next
    case True
    let ?rm1 = "\<lambda>k. if k \<in> set (map lower (possible_names v)) then Some f else rm k"
    from True have add: "add_names f (possible_names v) rm = Inr ?rm1"
      by (intro add_names_ok) simp_all
    have "\<not> (distinct (all_alias_keys rest) \<and> (\<forall>k\<in>set (all_alias_keys rest). ?rm1 k = None))"
    proof
      assume a: "distinct (all_alias_keys rest) \<and> (\<forall>k\<in>set (all_alias_keys rest). ?rm1 k = None)"
      then have "\<forall>k\<in>set (all_alias_keys rest). k \<notin> set (map lower (possible_names v)) \<and> rm k = None"
        by (auto split: if_splits)
      with a True have "distinct (all_alias_keys (e # rest))
          \<and> (\<forall>k\<in>set (all_alias_keys (e # rest)). rm k = None)"
        by (auto simp: all_alias_keys_Cons e alias_keys_def)
      with Cons.prems show False by blast
    qed
    from Cons.IH[OF this] add show ?thesis by (simp add: e)
  qed
qed

lemma build_reverse_distinct:
  assumes "distinct (all_alias_keys m)"
  shows "build_reverse m Map.empty = Inr (lookup_alias m)"
proof -
  have "(\<lambda>k. case lookup_alias m k of Some f \<Rightarrow> Some f | None \<Rightarrow> None) = lookup_alias m"
    by (auto simp: fun_eq_iff split: option.splits)
  with build_reverse_ok[OF assms, of Map.empty] show ?thesis by simp
qed

lemma build_reverse_not_distinct:
  assumes "\<not> distinct (all_alias_keys m)"
  shows "\<exists>n p f. build_reverse m Map.empty = Inl (AmbiguousMapping n p f)"
  using assms by (intro build_reverse_fail) simp

section \<open>The loop over the columns\<close>

lemma rename_loop_not_ambiguous: "\<not> is_ambiguous (rename_loop rm ps rd used)"
proof (induction ps arbitrary: rd used)
  case Nil
  show ?case by simp
next
  case (Cons p ps)
  obtain orig norm where p: "p = (orig, norm)" by (cases p)
  show ?case using Cons.IH by (simp add: p split: option.splits)
qed

lemma normalize_columns_ambiguous_iff:
  "is_ambiguous (normalize_columns cols m rp lc) \<longleftrightarrow> \<not> distinct (all_alias_keys m)"
proof (cases "distinct (all_alias_keys m)")
  case True
  then show ?thesis
    by (simp add: normalize_columns_def build_reverse_distinct rename_loop_not_ambiguous)
next
  case False
  from build_reverse_not_distinct[OF this] obtain n p f
    where "build_reverse m Map.empty = Inl (AmbiguousMapping n p f)" by blast
  with False show ?thesis by (simp add: normalize_columns_def)
qed

lemma distinct_concat_disjoint:
  "distinct (concat (map g m)) \<Longrightarrow> e1 \<in> set m \<Longrightarrow> e2 \<in> set m \<Longrightarrow> e1 \<noteq> e2 \<Longrightarrow>
   set (g e1) \<inter> set (g e2) = {}"
proof (induction m)
  case Nil
  then show ?case by simp
next
  case (Cons e rest)
  from Cons.prems(1) have d: "distinct (concat (map g rest))"
    and disj: "\<forall>e'\<in>set rest. set (g e) \<inter> set (g e') = {}" by auto
  from Cons.prems(2,3,4) consider "e1 = e" "e2 \<in> set rest" | "e2 = e" "e1 \<in> set rest"
    | "e1 \<in> set rest" "e2 \<in> set rest" by auto
  then show ?case
  proof cases
    case 1
    with disj show ?thesis by blast
  next
    case 2
    with disj show ?thesis by blast
  next
    case 3
    with Cons.IH[OF d] Cons.prems(4) show ?thesis by blast
  qed
qed

lemma two_names_not_distinct:
  assumes "two_names_claim_alias m"
  shows "\<not> distinct (all_alias_keys m)"
proof
  assume d: "distinct (all_alias_keys m)"
  from assms obtain e1 e2 k where e: "e1 \<in> set m" "e2 \<in> set m" "fst e1 \<noteq> fst e2"
    "k \<in> set (alias_keys (snd e1))" "k \<in> set (alias_keys (snd e2))"
    by (auto simp: two_names_claim_alias_def list_ex_iff)
  from e(3) have "e1 \<noteq> e2" by auto
  from distinct_concat_disjoint[OF d[unfolded all_alias_keys_def] e(1,2) this] e(4,5)
  show False by blast
qed

lemma rename_loop_clash:
  "j < length ps \<Longrightarrow> rm (lower (strip (snd (ps ! j)))) = Some f \<Longrightarrow>
   f \<in> used \<or> (\<exists>i<j. rm (lower (strip (snd (ps ! i)))) = Some f) \<Longrightarrow>
   \<forall>b<j. \<forall>f'. rm (lower (strip (snd (ps ! b)))) = Some f' \<longrightarrow>
      f' \<notin> used \<and> (\<forall>a<b. rm (lower (strip (snd (ps ! a)))) \<noteq> Some f') \<Longrightarrow>
   rename_loop rm ps rd used = Inl (MultipleColumns f)"
proof (induction ps arbitrary: j rd used)
  case Nil
  then show ?case by simp
next
  case (Cons p ps)
  obtain orig norm where p: "p = (orig, norm)" by (cases p)
  show ?case
  proof (cases j)
    case 0
    with Cons.prems show ?thesis by (simp add: p)
  next
    case (Suc j')
    from Cons.prems Suc have j': "j' < length ps" "rm (lower (strip (snd (ps ! j')))) = Some f"
      by simp_all
    from Cons.prems(3) Suc
    have ex: "f \<in> used \<or> rm (lower (strip norm)) = Some f
               \<or> (\<exists>i<j'. rm (lower (strip (snd (ps ! i)))) = Some f)"
      by (auto simp: Ex_less_Suc2 p)
    from Cons.prems(4) Suc
    have first: "\<forall>f'. rm (lower (strip norm)) = Some f' \<longrightarrow> f' \<notin> used"
      and later: "\<forall>b<j'. \<forall>f'. rm (lower (strip (snd (ps ! b)))) = Some f' \<longrightarrow>
         f' \<notin> used \<and> rm (lower (strip norm)) \<noteq> Some f'
         \<and> (\<forall>a<b. rm (lower (strip (snd (ps ! a)))) \<noteq> Some f')"
      by (simp_all add: All_less_Suc2 p)
    show ?thesis
    proof (cases "rm (lower (strip norm))")
      case None
      have "rename_loop rm ps rd used = Inl (MultipleColumns f)"
        using j' ex later None by (intro Cons.IH) auto
      with None show ?thesis by (simp add: p)
    next
      case (Some f0)
      with first have nu: "f0 \<notin> used" by simp
      have "\<And>rd'. rename_loop rm ps rd' (insert f0 used) = Inl (MultipleColumns f)"
        using j' ex later Some by (intro Cons.IH) auto
      with Some nu show ?thesis by (simp add: p)
    qed
  qed
qed

lemma normalized_cols_map:
  "normalized_cols rp lc cols = map (\<lambda>c. normalize_name lc rp [] c) cols"
  by (induction cols) (simp_all add: normalized_cols_def normalize_name_def Let_def)

lemma zip_normalized_nth:
  assumes "i < length cols"
  shows "lower (strip (snd (zip cols (normalized_cols rp lc cols) ! i))) = column_key rp lc (cols ! i)"
  using assms by (simp add: normalized_cols_map column_key_def)

lemma resolves_lookup:
  assumes "distinct (all_alias_keys m)"
  shows "resolves m rp lc c f \<longleftrightarrow> lookup_alias m (column_key rp lc c) = Some f"
  by (simp add: lookup_alias_Some[OF assms] resolves_def list_ex_iff)

lemma resolves_name: "resolves m rp lc c f \<Longrightarrow> f \<in> fst ` set m"
  by (auto simp: resolves_def list_ex_iff)

lemma all_alias_keys_mset:
  assumes "mset m1 = mset m2"
  shows "mset (all_alias_keys m1) = mset (all_alias_keys m2)"
proof -
  have "\<And>m. mset (all_alias_keys m)
      = sum_mset (image_mset (\<lambda>e. mset (alias_keys (snd e))) (mset m))"
    by (simp add: all_alias_keys_def mset_concat comp_def flip: sum_mset_sum_list)
  with assms show ?thesis by simp
qed

lemma lookup_alias_mset:
  assumes "mset m1 = mset m2" and "distinct (all_alias_keys m1)"
  shows "lookup_alias m1 = lookup_alias m2"
proof
  fix k
  from assms(1) have keys: "mset (all_alias_keys m1) = mset (all_alias_keys m2)"
    by (rule all_alias_keys_mset)
  with assms(2) have d2: "distinct (all_alias_keys m2)" by (metis mset_eq_imp_distinct_iff)
  from assms(1) have sets: "set m1 = set m2" by (rule mset_eq_setD)
  show "lookup_alias m1 k = lookup_alias m2 k"
  proof (cases "lookup_alias m1 k")
    case None
    then have "k \<notin> set (all_alias_keys m1)" by (simp add: lookup_alias_None)
    with keys have "k \<notin> set (all_alias_keys m2)" by (metis mset_eq_setD)
    then have "lookup_alias m2 k = None" by (simp add: lookup_alias_None)
    with None show ?thesis by simp
  next
    case (Some f)
    then have "\<exists>e\<in>set m1. fst e = f \<and> k \<in> set (alias_keys (snd e))"
      by (simp add: lookup_alias_Some[OF assms(2)])
    with sets have "lookup_alias m2 k = Some f" by (simp add: lookup_alias_Some[OF d2])
    with Some show ?thesis by simp
  qed
qed

section \<open>The claims on the column reconciler\<close>

text \<open>
  Claim C6, as amended. \<^verbatim>\<open>normalize_columns\<close> fails with the error of an ambiguous mapping
  if and only if some case-folded alias occurs more than once among all the aliases of the
  mapping, be it under two different canonical names or twice under the same one; in
  particular it fails when two different canonical names claim the same alias. The check
  comes before the observed columns are looked at, so for a given mapping the outcome is
  the same for all observed columns and both options.
\<close>
theorem ambiguous_mapping_iff_repeated_alias:
  "(is_ambiguous (normalize_columns cols m rp lc) \<longleftrightarrow> \<not> distinct (all_alias_keys m))
   \<and> (two_names_claim_alias m \<longrightarrow> is_ambiguous (normalize_columns cols m rp lc))
   \<and> is_ambiguous (normalize_columns cols m rp lc)
       = is_ambiguous (normalize_columns cols' m rp' lc')"
  by (simp add: normalize_columns_ambiguous_iff two_names_not_distinct)

theorem ambiguous_mapping_iff_repeated_alias_witness:
  "two_names_claim_alias [(''a'', Several [''x'']), (''b'', Single ''X'')]
   \<and> is_ambiguous (normalize_columns [''x''] [(''a'', Several [''x'']), (''b'', Single ''X'')] True True)
   \<and> \<not> distinct (all_alias_keys [(''a'', Several [''x'']), (''b'', Single ''X'')])"
proof -
  have a: "two_names_claim_alias [(''a'', Several [''x'']), (''b'', Single ''X'')]"
    by code_simp
  from ambiguous_mapping_iff_repeated_alias[of "[''x'']"
      "[(''a'', Several [''x'']), (''b'', Single ''X'')]" True True] a
  show ?thesis by blast
qed

text \<open>
  Against C6 as stated: one canonical name that lists an alias twice up to letter case is
  ambiguous for the code, although no two different canonical names claim an alias.
\<close>

theorem same_name_repeated_alias_counterexample:
  "is_ambiguous (normalize_columns [''name''] [(''full_name'', Several [''name'', ''Name''])] True True)
   \<and> \<not> two_names_claim_alias [(''full_name'', Several [''name'', ''Name''])]"
  by code_simp

text \<open>
  Claim C7. With a mapping that is not ambiguous, when column \<open>j\<close> is the first observed
  column that resolves to a canonical name \<open>f\<close> which an earlier column \<open>i\<close> has
  claimed, \<^verbatim>\<open>normalize_columns\<close> fails with the error of multiple columns, naming \<open>f\<close>.
  The witness is the case of the specification: the columns \<open>["name", "first_name"]\<close>
  against \<open>{"full_name": ["name", "first_name"]}\<close>.
\<close>
theorem second_claim_of_a_name_fails:
  assumes "distinct (all_alias_keys m)"
    and "i < j" and "j < length cols"
    and "resolves m rp lc (cols ! i) f" and "resolves m rp lc (cols ! j) f"
    and "no_clash_before m rp lc cols j"
  shows "normalize_columns cols m rp lc = Inl (MultipleColumns f)"
proof -
  let ?ps = "zip cols (normalized_cols rp lc cols)"
  have len: "length ?ps = length cols" by (simp add: normalized_cols_map)
  have key: "\<And>a. a < length cols \<Longrightarrow>
      lookup_alias m (lower (strip (snd (?ps ! a)))) = Some g \<longleftrightarrow> resolves m rp lc (cols ! a) g"
    for g by (simp add: zip_normalized_nth resolves_lookup[OF assms(1)])
  have 1: "j < length ?ps" using assms(3) len by simp
  have 2: "lookup_alias m (lower (strip (snd (?ps ! j)))) = Some f"
    using assms(3,5) by (simp add: key)
  have 3: "f \<in> {} \<or> (\<exists>a<j. lookup_alias m (lower (strip (snd (?ps ! a)))) = Some f)"
    using assms(2,3,4) by (auto simp: key intro!: exI[of _ i])
  have 4: "\<forall>b<j. \<forall>f'. lookup_alias m (lower (strip (snd (?ps ! b)))) = Some f' \<longrightarrow>
      f' \<notin> {} \<and> (\<forall>a<b. lookup_alias m (lower (strip (snd (?ps ! a)))) \<noteq> Some f')"
  proof (intro allI impI conjI)
    fix b f' a
    assume b: "b < j" and fb: "lookup_alias m (lower (strip (snd (?ps ! b)))) = Some f'"
      and a: "a < b"
    from b a assms(3) have rb: "resolves m rp lc (cols ! b) f'" using fb by (simp add: key)
    then obtain e where e: "e \<in> set m" "fst e = f'" by (auto dest: resolves_name)
    from assms(6) b a e(1)
    have "\<not> (resolves m rp lc (cols ! a) (fst e) \<and> resolves m rp lc (cols ! b) (fst e))"
      by (simp add: no_clash_before_def list_all_iff)
    with rb e(2) have "\<not> resolves m rp lc (cols ! a) f'" by simp
    with a b assms(3) show "lookup_alias m (lower (strip (snd (?ps ! a)))) \<noteq> Some f'"
      by (simp add: key)
  qed simp
  from rename_loop_clash[OF 1 2 3 4]
  have "rename_loop (lookup_alias m) ?ps [] {} = Inl (MultipleColumns f)" .
  then show ?thesis by (simp add: normalize_columns_def build_reverse_distinct[OF assms(1)])
qed

theorem second_claim_of_a_name_fails_witness:
  "distinct (all_alias_keys [(''full_name'', Several [''name'', ''first_name''])])
   \<and> (0::nat) < 1 \<and> 1 < length [''name'', ''first_name'']
   \<and> resolves [(''full_name'', Several [''name'', ''first_name''])] True True ''name'' ''full_name''
   \<and> resolves [(''full_name'', Several [''name'', ''first_name''])] True True ''first_name'' ''full_name''
   \<and> no_clash_before [(''full_name'', Several [''name'', ''first_name''])] True True
        [''name'', ''first_name''] 1
   \<and> normalize_columns [''name'', ''first_name'']
        [(''full_name'', Several [''name'', ''first_name''])] True True
       = Inl (MultipleColumns ''full_name'')"
proof -
  have a: "distinct (all_alias_keys [(''full_name'', Several [''name'', ''first_name''])])"
    by code_simp
  have b: "(0::nat) < 1" "1 < length [''name'', ''first_name'']" by simp_all
  have c: "resolves [(''full_name'', Several [''name'', ''first_name''])] True True
      ([''name'', ''first_name''] ! 0) ''full_name''" by code_simp
  have d: "resolves [(''full_name'', Several [''name'', ''first_name''])] True True
      ([''name'', ''first_name''] ! 1) ''full_name''" by code_simp
  have e: "no_clash_before [(''full_name'', Several [''name'', ''first_name''])] True True
        [''name'', ''first_name''] 1" by code_simp
  have r: "normalize_columns [''name'', ''first_name'']
        [(''full_name'', Several [''name'', ''first_name''])] True True
       = Inl (MultipleColumns ''full_name'')"
    by (rule second_claim_of_a_name_fails[OF a b c d e])
  from c d have "resolves [(''full_name'', Several [''name'', ''first_name''])] True True
      ''name'' ''full_name''"
    "resolves [(''full_name'', Several [''name'', ''first_name''])] True True
      ''first_name'' ''full_name''" by simp_all
  with a b e r show ?thesis by blast
qed

text \<open>
  Claim C8, as amended. Two mappings that differ only in the insertion order of their keys
  give the same outcome for every list of observed columns: both fail with the error of an
  ambiguous mapping, whose message may name another pair, or the results are equal, the
  same rename plan or the same error of multiple columns. The letter case of the keys is
  kept in the rename plan.
\<close>
theorem insertion_order_of_mapping:
  assumes "mset m1 = mset m2"
  shows "(is_ambiguous (normalize_columns cols m1 rp lc)
            \<longleftrightarrow> is_ambiguous (normalize_columns cols m2 rp lc))
       \<and> (\<not> is_ambiguous (normalize_columns cols m1 rp lc) \<longrightarrow>
            normalize_columns cols m1 rp lc = normalize_columns cols m2 rp lc)"
proof -
  from assms have keys: "mset (all_alias_keys m1) = mset (all_alias_keys m2)"
    by (rule all_alias_keys_mset)
  then have d: "distinct (all_alias_keys m1) \<longleftrightarrow> distinct (all_alias_keys m2)"
    by (rule mset_eq_imp_distinct_iff)
  have "normalize_columns cols m1 rp lc = normalize_columns cols m2 rp lc"
    if d1: "distinct (all_alias_keys m1)"
  proof -
    from d d1 have d2: "distinct (all_alias_keys m2)" by simp
    from assms d1 have "lookup_alias m1 = lookup_alias m2" by (rule lookup_alias_mset)
    then show ?thesis
      by (simp add: normalize_columns_def build_reverse_distinct[OF d1]
          build_reverse_distinct[OF d2])
  qed
  with d show ?thesis by (auto simp: normalize_columns_ambiguous_iff)
qed

theorem insertion_order_of_mapping_witness:
  "mset [(''full_name'', Several [''name'']), (''years_old'', Single ''age'')]
     = mset [(''years_old'', Single ''age''), (''full_name'', Several [''name''])]
   \<and> \<not> is_ambiguous (normalize_columns [''Name '', ''AGE!'']
        [(''full_name'', Several [''name'']), (''years_old'', Single ''age'')] True True)
   \<and> normalize_columns [''Name '', ''AGE!'']
        [(''full_name'', Several [''name'']), (''years_old'', Single ''age'')] True True
     = normalize_columns [''Name '', ''AGE!'']
        [(''years_old'', Single ''age''), (''full_name'', Several [''name''])] True True"
proof -
  have a: "mset [(''full_name'', Several [''name'']), (''years_old'', Single ''age'')]
     = mset [(''years_old'', Single ''age''), (''full_name'', Several [''name''])]"
    by (simp add: add_mset_commute)
  have b: "\<not> is_ambiguous (normalize_columns [''Name '', ''AGE!'']
        [(''full_name'', Several [''name'']), (''years_old'', Single ''age'')] True True)"
    by code_simp
  from insertion_order_of_mapping[OF a, of "[''Name '', ''AGE!'']" True True] a b
  show ?thesis by blast
qed

text \<open>
  Against C8 as stated: two mappings that differ only in the letter case of a key give
  different rename plans and different final column names.
\<close>

theorem key_case_changes_plan_counterexample:
  "normalize_columns [''name''] [(''Full_Name'', Single ''name'')] True True
     = Inr [(''name'', ''Full_Name'')]
   \<and> normalize_columns [''name''] [(''full_name'', Single ''name'')] True True
     = Inr [(''name'', ''full_name'')]
   \<and> renamed [(''name'', ''Full_Name'')] [''name''] \<noteq> renamed [(''name'', ''full_name'')] [''name'']
   \<and> map (\<lambda>e. (lower (fst e), snd e)) [(''Full_Name'', Single ''name'')]
     = map (\<lambda>e. (lower (fst e), snd e)) [(''full_name'', Single ''name'')]"
  by code_simp

section \<open>Facts about characters and texts\<close>

lemma of_char_lower_char:
  assumes "is_upper c"
  shows "(of_char (lower_char c) :: nat) = of_char c + 32"
proof -
  from assms have "(of_char c :: nat) \<le> 222" by (auto simp: is_upper_def Let_def)
  then have "(of_char c + 32 :: nat) mod 256 = of_char c + 32" by simp
  with assms show ?thesis by (simp add: lower_char_def)
qed

lemma is_upper_lower_char: "\<not> is_upper (lower_char c)"
proof (cases "is_upper c")
  case True
  from of_char_lower_char[OF True] True show ?thesis
    by (auto simp: is_upper_def Let_def)
next
  case False
  then show ?thesis by (simp add: lower_char_def)
qed

lemma lower_char_idem: "lower_char (lower_char c) = lower_char c"
  using is_upper_lower_char[of c] by (simp add: lower_char_def[of "lower_char c"])

lemma isspace_lower_char: "isspace (lower_char c) = isspace c"
proof (cases "is_upper c")
  case True
  from of_char_lower_char[OF True] True show ?thesis
    by (auto simp: is_upper_def isspace_def Let_def)
next
  case False
  then show ?thesis by (simp add: lower_char_def)
qed

lemma is_word_lower_char: "is_word (lower_char c) = is_word c"
proof (cases "is_upper c")
  case True
  define n where "n = (of_char c :: nat)"
  from True consider "65 \<le> n" "n \<le> 90" | "192 \<le> n" "n \<le> 214" | "216 \<le> n" "n \<le> 222"
    unfolding is_upper_def Let_def n_def by linarith
  then have "is_word c \<and> is_word (lower_char c)"
  proof cases
    case 1
    then show ?thesis
      by (simp add: is_word_def Let_def of_char_lower_char[OF True] flip: n_def)
  next
    case 2
    then show ?thesis
      by (simp add: is_word_def Let_def of_char_lower_char[OF True] flip: n_def)
  next
    case 3
    then show ?thesis
      by (simp add: is_word_def Let_def of_char_lower_char[OF True] flip: n_def)
  qed
  then show ?thesis by simp
next
  case False
  then show ?thesis by (simp add: lower_char_def)
qed

lemma is_punct_lower_char: "is_punct (lower_char c) = is_punct c"
  by (simp add: is_punct_def is_word_lower_char isspace_lower_char)

lemma lower_idem: "lower (lower s) = lower s"
  by (simp add: lower_def lower_char_idem)

lemma strip_lower: "strip (lower s) = lower (strip s)"
proof -
  have "isspace \<circ> lower_char = isspace" by (simp add: fun_eq_iff isspace_lower_char)
  then show ?thesis by (simp add: strip_def lower_def dropWhile_map rev_map)
qed

lemma last_dropWhile: "dropWhile P xs \<noteq> [] \<Longrightarrow> last (dropWhile P xs) = last xs"
  by (induction xs) (auto split: if_splits)

lemma trimmed_strip: "trimmed (strip s)"
proof (cases "strip s = []")
  case True
  then show ?thesis by (simp add: trimmed_def)
next
  case False
  let ?u = "dropWhile isspace s"
  let ?v = "dropWhile isspace (rev ?u)"
  from False have v: "?v \<noteq> []" by (simp add: strip_def)
  have u: "?u \<noteq> []"
  proof
    assume e: "?u = []"
    have "?v = []" by (simp only: e rev.simps dropWhile.simps)
    with v show False by blast
  qed
  from v have "\<not> isspace (hd ?v)" by (rule hd_dropWhile)
  then have l: "\<not> isspace (last (strip s))" by (simp add: strip_def last_rev)
  from v have "last ?v = last (rev ?u)" by (rule last_dropWhile)
  then have "hd (strip s) = hd ?u" by (simp add: strip_def hd_rev last_rev)
  moreover from u have "\<not> isspace (hd ?u)" by (rule hd_dropWhile)
  ultimately have "\<not> isspace (hd (strip s))" by simp
  with l show ?thesis by (simp add: trimmed_def)
qed

lemma strip_trimmed:
  assumes "trimmed s"
  shows "strip s = s"
proof (cases "s = []")
  case True
  then show ?thesis by (simp add: strip_def)
next
  case False
  with assms have h: "\<not> isspace (hd s)" and l: "\<not> isspace (last s)"
    by (simp_all add: trimmed_def)
  from h have 1: "dropWhile isspace s = s" by (simp add: dropWhile_eq_self_iff)
  from l have "\<not> isspace (hd (rev s))" by (simp add: hd_rev)
  then have 2: "dropWhile isspace (rev s) = rev s" by (simp add: dropWhile_eq_self_iff)
  show ?thesis by (simp add: strip_def 1 2)
qed

lemma strip_idem: "strip (strip s) = strip s"
  by (rule strip_trimmed) (rule trimmed_strip)

lemma no_punct_strip: "no_punct s \<Longrightarrow> no_punct (strip s)"
  by (auto simp: no_punct_def strip_def list_all_iff dest!: set_dropWhileD)

lemma no_punct_lower: "no_punct (lower s) = no_punct s"
  by (simp add: no_punct_def lower_def list_all_iff is_punct_lower_char)

lemma sub_punct_no_punct: "no_punct s \<Longrightarrow> sub_punct r b s = s"
  by (induction s arbitrary: b) (simp_all add: no_punct_def)

lemma no_punct_sub_punct: "no_punct r \<Longrightarrow> no_punct (sub_punct r b s)"
  by (induction s arbitrary: b) (simp_all add: no_punct_def)

lemma strip_punctuation_clean:
  assumes "no_punct r"
  shows "no_punct (strip_punctuation s r)" and "trimmed (strip_punctuation s r)"
  using assms by (simp_all add: strip_punctuation_def no_punct_strip no_punct_sub_punct trimmed_strip)

lemma is_upper_is_word: "is_upper c \<Longrightarrow> is_word c"
proof -
  assume u: "is_upper c"
  define n where "n = (of_char c :: nat)"
  from u consider "65 \<le> n" "n \<le> 90" | "192 \<le> n" "n \<le> 214" | "216 \<le> n" "n \<le> 222"
    unfolding is_upper_def Let_def n_def by linarith
  then show "is_word c"
  proof cases
    case 1
    then show ?thesis by (simp add: is_word_def Let_def flip: n_def)
  next
    case 2
    then show ?thesis by (simp add: is_word_def Let_def flip: n_def)
  next
    case 3
    then show ?thesis by (simp add: is_word_def Let_def flip: n_def)
  qed
qed

lemma lower_char_punct: "is_punct c \<Longrightarrow> lower_char c = c"
  using is_upper_is_word[of c] by (auto simp: is_punct_def lower_char_def)

lemma lower_all_punct: "all_punct r \<Longrightarrow> lower r = r"
  by (simp add: all_punct_def lower_def list_all_iff lower_char_punct map_idI)

lemma all_punct_lower: "all_punct (lower s) = all_punct s"
  by (simp add: all_punct_def lower_def list_all_iff is_punct_lower_char)

lemma sub_punct_lower:
  "lower r = r \<Longrightarrow> sub_punct r b (lower x) = lower (sub_punct r b x)"
proof (induction x arbitrary: b)
  case Nil
  show ?case by (simp add: lower_def)
next
  case (Cons c cs)
  from Cons.prems have r: "map lower_char r = r" by (simp add: lower_def)
  from Cons.IH[OF Cons.prems]
  have ih: "\<And>b. sub_punct r b (map lower_char cs) = map lower_char (sub_punct r b cs)"
    by (simp add: lower_def)
  show ?case by (simp add: lower_def is_punct_lower_char ih r)
qed

lemma sub_punct_skip: "all_punct u \<Longrightarrow> sub_punct r True (u @ w) = sub_punct r True w"
  by (induction u) (simp_all add: all_punct_def)

lemma sub_punct_own:
  assumes "all_punct r" and "r \<noteq> []"
  shows "sub_punct r False (r @ w) = r @ sub_punct r True w"
proof -
  from assms(2) obtain c r' where r: "r = c # r'" by (cases r) auto
  with assms(1) have c: "is_punct c" and r': "all_punct r'" by (simp_all add: all_punct_def)
  have "sub_punct r False ((c # r') @ w) = r @ sub_punct r True (r' @ w)" using c by simp
  also have "sub_punct r True (r' @ w) = sub_punct r True w" using r' by (rule sub_punct_skip)
  finally show ?thesis by (simp only: r)
qed

lemma sub_punct_idem:
  assumes "all_punct r" and "r \<noteq> []"
  shows "sub_punct r b (sub_punct r b x) = sub_punct r b x"
proof (induction x arbitrary: b)
  case Nil
  show ?case by simp
next
  case (Cons c cs)
  show ?case
  proof (cases "is_punct c")
    case True
    show ?thesis
    proof (cases b)
      case True
      with \<open>is_punct c\<close> Cons.IH[of True] show ?thesis by simp
    next
      case False
      with \<open>is_punct c\<close> Cons.IH[of True] show ?thesis
        by (simp add: sub_punct_own[OF assms])
    qed
  next
    case False
    with Cons.IH[of False] show ?thesis by simp
  qed
qed

lemma sub_punct_snoc: "\<not> is_punct c \<Longrightarrow> sub_punct r b (w @ [c]) = sub_punct r b w @ [c]"
  by (induction w arbitrary: b) simp_all

lemma isspace_not_punct: "isspace c \<Longrightarrow> \<not> is_punct c"
  by (simp add: is_punct_def)

lemma fixed_dropWhile:
  "sub_punct r False w = w \<Longrightarrow> sub_punct r False (dropWhile isspace w) = dropWhile isspace w"
proof (induction w)
  case Nil
  show ?case by simp
next
  case (Cons c w)
  show ?case
  proof (cases "isspace c")
    case True
    then have "\<not> is_punct c" by (rule isspace_not_punct)
    with Cons.prems have "sub_punct r False w = w" by simp
    with Cons.IH True show ?thesis by simp
  next
    case False
    with Cons.prems show ?thesis by simp
  qed
qed

lemma fixed_drop_end:
  "sub_punct r False w = w \<Longrightarrow>
   sub_punct r False (rev (dropWhile isspace (rev w))) = rev (dropWhile isspace (rev w))"
proof (induction w rule: rev_induct)
  case Nil
  show ?case by simp
next
  case (snoc c w)
  show ?case
  proof (cases "isspace c")
    case True
    then have "\<not> is_punct c" by (rule isspace_not_punct)
    with snoc.prems have "sub_punct r False w = w" by (simp add: sub_punct_snoc)
    with snoc.IH True show ?thesis by simp
  next
    case False
    with snoc.prems show ?thesis by simp
  qed
qed

lemma fixed_strip: "sub_punct r False w = w \<Longrightarrow> sub_punct r False (strip w) = strip w"
  unfolding strip_def by (intro fixed_drop_end fixed_dropWhile)

lemma strip_punctuation_steady:
  assumes "sub_punct r False s = s" and "trimmed s"
  shows "strip_punctuation s r = s"
  using assms by (simp add: strip_punctuation_def strip_trimmed)

lemma sub_punct_length:
  "length (filter (\<lambda>c. \<not> is_punct c) x) + (if \<not> b \<and> \<not> no_punct x then length r else 0)
     \<le> length (sub_punct r b x)"
proof (induction x arbitrary: b)
  case Nil
  show ?case by (simp add: no_punct_def)
next
  case (Cons c cs)
  show ?case
  proof (cases "is_punct c")
    case True
    from Cons.IH[of True] True show ?thesis by (simp add: no_punct_def)
  next
    case False
    from Cons.IH[of False] False show ?thesis
      by (auto simp: no_punct_def split: if_splits)
  qed
qed

lemma sub_punct_longer:
  assumes "\<not> no_punct x" and "\<not> all_punct x" and "length x = length r"
  shows "length x < length (sub_punct r False x)"
proof -
  from assms(2) have "filter (\<lambda>c. \<not> is_punct c) x \<noteq> []"
    by (auto simp: all_punct_def list_all_iff filter_empty_conv)
  then have "1 \<le> length (filter (\<lambda>c. \<not> is_punct c) x)" by (cases "filter (\<lambda>c. \<not> is_punct c) x") auto
  with sub_punct_length[of x False r] assms(1,3) show ?thesis by simp
qed


text \<open>Over the characters, the normalizer on an alphabet is the normalizer above.\<close>

lemma sub_punct_on_char: "sub_punct_on is_punct r b s = sub_punct r b s"
  by (induction s arbitrary: b) simp_all

lemma normalize_on_char:
  "normalize_on isspace is_punct lower fc sp r s = normalize_name fc sp r s"
  by (simp add: normalize_on_def normalize_name_def strip_punctuation_def strip_def strip_on_def
      sub_punct_on_char)

lemma strip_a_a: "strip (CHR ''a'' # y @ ''a'') = CHR ''a'' # y @ ''a''"
proof -
  have "\<not> isspace CHR ''a''" by code_simp
  then show ?thesis by (intro strip_trimmed) (simp add: trimmed_def)
qed

lemma sub_punct_a_a:
  "sub_punct r False (CHR ''a'' # x @ ''a'') = CHR ''a'' # sub_punct r False x @ ''a''"
proof -
  have c: "\<not> is_punct CHR ''a''" by code_simp
  then have "sub_punct r False (CHR ''a'' # x @ ''a'') = CHR ''a'' # sub_punct r False (x @ ''a'')"
    by simp
  also have "sub_punct r False (x @ ''a'') = sub_punct r False x @ ''a''"
    using c by (rule sub_punct_snoc)
  finally show ?thesis .
qed

lemma lower_a_a: "lower (CHR ''a'' # y @ ''a'') = CHR ''a'' # lower y @ ''a''"
proof -
  have "lower_char CHR ''a'' = CHR ''a''" by code_simp
  then show ?thesis by (simp add: lower_def)
qed

lemma normalize_a_a:
  "normalize_name fc True r (CHR ''a'' # x @ ''a'')
     = (if fc then CHR ''a'' # lower (sub_punct r False x) @ ''a''
        else CHR ''a'' # sub_punct r False x @ ''a'')"
proof -
  have "strip_punctuation (strip (CHR ''a'' # x @ ''a'')) r = CHR ''a'' # sub_punct r False x @ ''a''"
    by (simp only: strip_punctuation_def strip_a_a sub_punct_a_a)
  then show ?thesis
    by (simp only: normalize_name_def Let_def if_True strip_a_a lower_a_a)
qed

lemma normalize_a_dot_a:
  "normalize_name fc True r ''a.a'' = CHR ''a'' # (if fc then lower r else r) @ ''a''"
proof -
  have "is_punct CHR ''.''" by code_simp
  then have "sub_punct r False ''.'' = r" by simp
  with normalize_a_a[of fc r "''.''"] show ?thesis by (simp split: if_splits)
qed

section \<open>The claim on the name normalizer\<close>

text \<open>
  Claim C10, as amended. On the texts of code points below 256, and for every value of
  \<open>fold_case\<close>, the name normalizer is idempotent exactly when punctuation is not
  stripped, or the replacement holds no punctuation character, as the default empty
  replacement does, or the replacement holds punctuation characters only. A replacement
  that mixes punctuation with other characters is not idempotent on the text \<open>"a.a"\<close>.
\<close>

theorem normalize_name_idempotent:
  "((strip_punct \<longrightarrow> no_punct replacement \<or> all_punct replacement) \<longrightarrow>
      normalize_name fold_case strip_punct replacement
        (normalize_name fold_case strip_punct replacement s)
      = normalize_name fold_case strip_punct replacement s)
   \<and> (strip_punct \<and> \<not> no_punct replacement \<and> \<not> all_punct replacement \<longrightarrow>
      normalize_name fold_case strip_punct replacement
        (normalize_name fold_case strip_punct replacement ''a.a'')
      \<noteq> normalize_name fold_case strip_punct replacement ''a.a'')"
proof (intro conjI impI)
  assume ok: "strip_punct \<longrightarrow> no_punct replacement \<or> all_punct replacement"
  show "normalize_name fold_case strip_punct replacement
        (normalize_name fold_case strip_punct replacement s)
      = normalize_name fold_case strip_punct replacement s"
  proof (cases strip_punct)
    case False
    then show ?thesis
      by (simp add: normalize_name_def strip_lower strip_idem lower_idem)
  next
    case True
    let ?t = "strip_punctuation (strip s) replacement"
    let ?u = "lower ?t"
    have tr: "trimmed ?t" by (simp add: strip_punctuation_def trimmed_strip)
    have fixed: "sub_punct replacement False ?t = ?t \<and> sub_punct replacement False ?u = ?u"
    proof (cases "no_punct replacement")
      case True
      then have "no_punct ?t" by (rule strip_punctuation_clean)
      then show ?thesis by (simp add: sub_punct_no_punct no_punct_lower)
    next
      case False
      with ok \<open>strip_punct\<close> have ap: "all_punct replacement" by simp
      from False have ne: "replacement \<noteq> []" by (auto simp: no_punct_def)
      have "sub_punct replacement False (sub_punct replacement False (strip s))
          = sub_punct replacement False (strip s)" using ap ne by (rule sub_punct_idem)
      then have t: "sub_punct replacement False ?t = ?t"
        unfolding strip_punctuation_def by (rule fixed_strip)
      from ap have "lower replacement = replacement" by (rule lower_all_punct)
      then have "sub_punct replacement False ?u = lower (sub_punct replacement False ?t)"
        by (rule sub_punct_lower)
      with t show ?thesis by simp
    qed
    have tu: "trimmed ?u" using strip_lower[of ?t] trimmed_strip[of ?u] tr
      by (simp add: strip_trimmed)
    show ?thesis
    proof (cases fold_case)
      case False
      from fixed tr have "strip_punctuation (strip ?t) replacement = ?t"
        by (simp add: strip_trimmed strip_punctuation_steady)
      with True False show ?thesis by (simp add: normalize_name_def)
    next
      case fc: True
      from fixed tu have "strip_punctuation (strip ?u) replacement = ?u"
        by (simp add: strip_trimmed strip_punctuation_steady)
      with tu tr True fc show ?thesis
        by (simp add: normalize_name_def strip_trimmed lower_idem)
    qed
  qed
next
  assume bad: "strip_punct \<and> \<not> no_punct replacement \<and> \<not> all_punct replacement"
  let ?r = "if fold_case then lower replacement else replacement"
  have len: "length (lower replacement) = length replacement" by (simp add: lower_def)
  from bad have r: "\<not> no_punct ?r" "\<not> all_punct ?r"
    by (simp_all add: no_punct_lower all_punct_lower)
  from len have "length ?r = length replacement" by simp
  with r have "length ?r < length (sub_punct replacement False ?r)" by (rule sub_punct_longer)
  moreover have "length (lower y) = length y" for y by (simp add: lower_def)
  ultimately have "length (normalize_name fold_case True replacement (CHR ''a'' # ?r @ ''a''))
      \<noteq> length (CHR ''a'' # ?r @ ''a'')"
    using len by (auto simp: normalize_a_a split: if_splits)
  then have "normalize_name fold_case True replacement (CHR ''a'' # ?r @ ''a'')
      \<noteq> CHR ''a'' # ?r @ ''a''" by auto
  with bad show "normalize_name fold_case strip_punct replacement
        (normalize_name fold_case strip_punct replacement ''a.a'')
      \<noteq> normalize_name fold_case strip_punct replacement ''a.a''"
    by (simp add: normalize_a_dot_a)
qed

theorem normalize_name_idempotent_witness:
  "no_punct ''_''
   \<and> normalize_name True True ''_'' ''  Hello, World!  '' = ''hello_ world_''
   \<and> normalize_name True True ''_'' ''hello_ world_'' = ''hello_ world_''
   \<and> all_punct ''--''
   \<and> normalize_name False True ''--'' ''a, b!'' = ''a-- b--''
   \<and> normalize_name False True ''--'' ''a-- b--'' = ''a-- b--''
   \<and> \<not> no_punct '' - '' \<and> \<not> all_punct '' - ''
   \<and> normalize_name False True '' - '' (normalize_name False True '' - '' ''a.a'')
       \<noteq> normalize_name False True '' - '' ''a.a''"
proof -
  have n: "no_punct ''_''" by code_simp
  have b: "normalize_name True True ''_'' ''  Hello, World!  '' = ''hello_ world_''" by code_simp
  from normalize_name_idempotent[of True "''_''" True "''  Hello, World!  ''"] n b
  have c: "normalize_name True True ''_'' ''hello_ world_'' = ''hello_ world_''" by simp
  have p: "all_punct ''--''" by code_simp
  have d: "normalize_name False True ''--'' ''a, b!'' = ''a-- b--''" by code_simp
  from normalize_name_idempotent[of True "''--''" False "''a, b!''"] p d
  have e: "normalize_name False True ''--'' ''a-- b--'' = ''a-- b--''" by simp
  have m: "\<not> no_punct '' - ''" "\<not> all_punct '' - ''" by code_simp+
  from normalize_name_idempotent[of True "'' - ''" False] m
  have f: "normalize_name False True '' - '' (normalize_name False True '' - '' ''a.a'')
       \<noteq> normalize_name False True '' - '' ''a.a''" by blast
  from n b c p d e m f show ?thesis by blast
qed

text \<open>
  Against C10 as stated. With the replacement \<open>" - "\<close> the text \<open>"a.b"\<close> becomes
  \<open>"a - b"\<close>, and normalizing that once more replaces the hyphen again. With the default
  options the text U+0130 becomes U+0069 U+0307, and normalizing that once more strips
  U+0307.
\<close>

theorem normalize_name_not_idempotent_counterexample:
  "normalize_name False True '' - '' (normalize_name False True '' - '' ''a.b'')
     \<noteq> normalize_name False True '' - '' ''a.b''
   \<and> normalize_on dotted_space dotted_punct dotted_lower True True []
       (normalize_on dotted_space dotted_punct dotted_lower True True [] [304])
     \<noteq> normalize_on dotted_space dotted_punct dotted_lower True True [] [304]
   \<and> normalize_on dotted_space dotted_punct dotted_lower True True [] [304] = [105, 775]
   \<and> normalize_on dotted_space dotted_punct dotted_lower True True [] [105, 775] = [105]"
  by code_simp

text \<open>The model of \<^verbatim>\<open>strip_punctuation\<close> on the cases of tests/utils/test\_strip\_punctuation.py.\<close>

lemma strip_punctuation_examples:
  "strip_punctuation ''First Name!'' [] = ''First Name''
  \<and> strip_punctuation ''Email@domain.com'' [] = ''Emaildomaincom''
  \<and> strip_punctuation ''Price: $100'' [] = ''Price 100''
  \<and> strip_punctuation ''Price: $100'' ''_'' = ''Price_ _100''
  \<and> strip_punctuation ''Last, Name'' ''_'' = ''Last_ Name''
  \<and> strip_punctuation ''Hello,   World!'' [] = ''Hello   World''
  \<and> strip_punctuation ''  Hello, World!  '' [] = ''Hello World''
  \<and> strip_punctuation ''hello_world_test'' [] = ''hello_world_test''
  \<and> strip_punctuation ''hello-world-test'' ''_'' = ''hello_world_test''
  \<and> strip_punctuation [] [] = []"
  by code_simp

end
